theory Spec2Isabelle
  imports Main "HOL-Library.AList"
begin

section \<open>Data model of the agents (agents/types.ts)\<close>

text \<open>
  A thrown JavaScript exception is a value of \<open>js_error\<close>; a function that may throw
  returns \<open>js_error + 'a\<close> with \<open>Inl\<close> for the exception. \<open>Error\<close> is
  \<^verbatim>\<open>new Error(msg)\<close>, \<open>TypeError\<close> is the exception the runtime raises when a
  property of \<^verbatim>\<open>undefined\<close> is read.
\<close>

datatype js_error = Error string | TypeError string

text \<open>An open-ended object payload (\<^verbatim>\<open>any\<close>, \<^verbatim>\<open>Record<string, any>\<close>) is a key/value list.\<close>

type_synonym payload = "(string \<times> string) list"

record agent_task =
  task_id :: string
  task_type :: string
  task_description :: string
  task_input :: payload
  task_options :: "payload option"

record codebase_info =
  rootDir :: string
  files :: "(string \<times> string) list"
  ast :: "string option"

record agent_result =
  success :: bool
  "output" :: "string option"
  error :: "string option"
  metadata :: "payload option"

record agent_context =
  codebase :: codebase_info
  currentFile :: "string option"
  ctx_results :: "(string \<times> agent_result) list"
  ctx_options_input :: "payload option"

text \<open>
  An agent's \<^verbatim>\<open>executeTask\<close> is an external worker: it either produces a result
  or throws. It is a function of the task and the context it is given; the engine
  passes it the context and reads only the result it returns.
\<close>

record agent =
  agent_name :: string
  agent_description :: string
  capabilities :: "string list"
  agent_executeTask :: "agent_task \<Rightarrow> agent_context \<Rightarrow> js_error + agent_result"

section \<open>The task dispatcher (agents/agent-manager.ts)\<close>

text \<open>
  \<^verbatim>\<open>const agents: Record<string, Agent> = {}\<close> is a map from agent names to agents.
  \<^verbatim>\<open>getAgent\<close> throws when the name has no entry.
\<close>

definition getAgent :: "(string \<rightharpoonup> agent) \<Rightarrow> string \<Rightarrow> js_error + agent" where
  "getAgent agents agentName =
     (case agents agentName of
        None \<Rightarrow> Inl (Error (''Agent '' @ agentName @ '' not found''))
      | Some a \<Rightarrow> Inr a)"

text \<open>
  The \<^verbatim>\<open>switch (task.type)\<close> of \<^verbatim>\<open>executeTask\<close>: the agent name each case passes
  to \<^verbatim>\<open>getAgent\<close>; \<open>None\<close> is the \<^verbatim>\<open>default\<close> case.
\<close>

definition task_type_agent :: "string \<Rightarrow> string option" where
  "task_type_agent ty =
     (if ty = ''code-generation'' then Some ''codeGeneration''
      else if ty = ''code-review'' then Some ''codeReview''
      else if ty = ''error-fixing'' then Some ''errorFixing''
      else if ty = ''refactoring'' then Some ''refactoring''
      else if ty = ''testing'' then Some ''testing''
      else if ty = ''langgraph'' then Some ''langgraph''
      else None)"

definition executeTask ::
  "(string \<rightharpoonup> agent) \<Rightarrow> agent_task \<Rightarrow> agent_context \<Rightarrow> js_error + agent_result" where
  "executeTask agents t ctx =
     (case task_type_agent (task_type t) of
        None \<Rightarrow> Inl (Error (''Unknown task type: '' @ task_type t))
      | Some agentName \<Rightarrow>
          (case getAgent agents agentName of
             Inl e \<Rightarrow> Inl e
           | Inr a \<Rightarrow> agent_executeTask a t ctx))"

section \<open>Workflow definitions and the definition store (workflows/workflow-manager.ts)\<close>

text \<open>
  \<^verbatim>\<open>next?: string | ((context: AgentContext) => string)\<close> is a tagged variant; an
  absent \<^verbatim>\<open>next\<close> or \<^verbatim>\<open>condition\<close> is \<open>None\<close>. The two callbacks of a step are
  JavaScript functions of the context, which may throw (a selector that reads
  \<^verbatim>\<open>ctx.results["s1"].output.ok\<close> throws a \<^verbatim>\<open>TypeError\<close> when the entry or its
  output is missing): they return a sum.
\<close>

datatype next_selector = Static string | Computed "agent_context \<Rightarrow> js_error + string"

record workflow_step =
  step_id :: string
  step_name :: string
  step_description :: string
  task :: agent_task
  condition :: "(agent_context \<Rightarrow> js_error + bool) option"
  "next" :: "next_selector option"

record workflow =
  wf_id :: string
  wf_name :: string
  wf_description :: string
  steps :: "workflow_step list"

text \<open>
  \<^verbatim>\<open>const workflows: Record<string, Workflow> = {}\<close> is a map from ids to workflows
  (ids that name a member of \<^verbatim>\<open>Object.prototype\<close> are outside this model).
  \<^verbatim>\<open>registerWorkflow\<close> is the single assignment \<^verbatim>\<open>workflows[workflow.id] = workflow\<close>.
\<close>

definition registerWorkflow :: "(string \<rightharpoonup> workflow) \<Rightarrow> workflow \<Rightarrow> (string \<rightharpoonup> workflow)" where
  "registerWorkflow workflows w = workflows(wf_id w \<mapsto> w)"

definition getWorkflow :: "(string \<rightharpoonup> workflow) \<Rightarrow> string \<Rightarrow> js_error + workflow" where
  "getWorkflow workflows i =
     (case workflows i of
        None \<Rightarrow> Inl (Error (''Workflow '' @ i @ '' not found''))
      | Some w \<Rightarrow> Inr w)"

section \<open>The environment of a run\<close>

text \<open>
  What the engine reaches through imports and globals is a field of \<open>env\<close>: the agent
  registry, the two configuration defaults read from \<^verbatim>\<open>getConfig().workflow\<close>,
  \<^verbatim>\<open>process.cwd()\<close>, the codebase analyser, the git hooks and the file system calls
  of \<^verbatim>\<open>createWorkflow\<close>. Each call that may throw returns a sum.

  The source's \<^verbatim>\<open>askForApproval\<close> is a placeholder (its comment: in a real
  implementation this would prompt the user; for now it logs the message and returns
  true). The engine is modelled over an arbitrary answer function \<open>approve\<close>, so that
  the branch taken on a refusal is part of the model; the placeholder is the instance
  \<open>askForApproval\<close> below, with which that branch is never taken. What is stated of
  the source's own callback is stated under \<open>approve e = askForApproval\<close>.
\<close>

record env =
  agents :: "string \<rightharpoonup> agent"
  config_autoCommit :: bool
  config_requireApproval :: bool
  cwd :: string
  analyzeCodebase :: "string \<Rightarrow> js_error + codebase_info"
  approve :: "string \<Rightarrow> bool"
  gitCommit :: "string \<Rightarrow> js_error + unit"
  gitPush :: "js_error + unit"
  fs_mkdir :: "string \<Rightarrow> js_error + unit"
  fs_writeFile :: "string \<Rightarrow> string \<Rightarrow> js_error + unit"
  json_stringify :: "workflow \<Rightarrow> string"

definition askForApproval :: "string \<Rightarrow> bool" where
  "askForApproval message = True"

text \<open>
  Calls to the external collaborators are recorded in order in a trace; what is
  written with \<^verbatim>\<open>console.log\<close> and \<^verbatim>\<open>console.error\<close> is recorded in a
  separate list of console lines.
\<close>

datatype event =
    EvDispatch agent_task
  | EvAskApproval string
  | EvGitCommit string
  | EvGitPush

datatype console_line = Log string | ConsoleError string js_error

section \<open>createWorkflow\<close>

text \<open>
  The guard \<^verbatim>\<open>!workflow.id || !workflow.name || !workflow.description ||
  !workflow.steps || workflow.steps.length === 0\<close>: an empty string is falsy, an array
  never is, so \<^verbatim>\<open>!workflow.steps\<close> is false for every step list.
\<close>

definition invalid_definition :: "workflow \<Rightarrow> bool" where
  "invalid_definition w \<longleftrightarrow>
     wf_id w = [] \<or> wf_name w = [] \<or> wf_description w = [] \<or> steps w = []"

definition workflowsDir :: "env \<Rightarrow> string" where
  "workflowsDir e = cwd e @ ''/.codeforge/workflows''"

text \<open>
  The result is the store after the call, the console lines written, and the value
  returned or the exception rethrown by the \<^verbatim>\<open>catch\<close> block.
\<close>

definition createWorkflow ::
  "env \<Rightarrow> (string \<rightharpoonup> workflow) \<Rightarrow> workflow \<Rightarrow>
     (string \<rightharpoonup> workflow) \<times> console_line list \<times> (js_error + workflow)" where
  "createWorkflow e workflows w =
     (if invalid_definition w then
        (workflows,
         [ConsoleError ''Error creating workflow:'' (Error ''Invalid workflow definition'')],
         Inl (Error ''Invalid workflow definition''))
      else
        let workflows' = registerWorkflow workflows w;
            filePath = workflowsDir e @ ''/'' @ wf_id w @ ''.json''
        in case fs_mkdir e (workflowsDir e) of
             Inl err \<Rightarrow> (workflows', [ConsoleError ''Error creating workflow:'' err], Inl err)
           | Inr _ \<Rightarrow>
              (case fs_writeFile e filePath (json_stringify e w) of
                 Inl err \<Rightarrow> (workflows', [ConsoleError ''Error creating workflow:'' err], Inl err)
               | Inr _ \<Rightarrow>
                   (workflows', [Log (''Workflow '' @ wf_name w @ '' created.'')], Inr w)))"

section \<open>runWorkflow\<close>

record run_options =
  opt_codebaseDir :: "string option"
  opt_autoCommit :: "bool option"
  opt_commitMessage :: "string option"
  opt_requireApproval :: "bool option"

record workflow_options =
  codebaseDir :: string
  autoCommit :: bool
  commitMessage :: string
  requireApproval :: bool

text \<open>\<^verbatim>\<open>a || b\<close> on an optional string: an absent or empty \<open>a\<close> gives \<open>b\<close>.\<close>

definition or_default :: "string option \<Rightarrow> string \<Rightarrow> string" where
  "or_default a b = (case a of None \<Rightarrow> b | Some s \<Rightarrow> if s = [] then b else s)"

definition set_default_options :: "env \<Rightarrow> workflow \<Rightarrow> run_options option \<Rightarrow> workflow_options" where
  "set_default_options e w options =
     \<lparr> codebaseDir = or_default (Option.bind options opt_codebaseDir) (cwd e),
       autoCommit =
         (case Option.bind options opt_autoCommit of
            Some b \<Rightarrow> b | None \<Rightarrow> config_autoCommit e),
       commitMessage =
         or_default (Option.bind options opt_commitMessage)
           (''CodeForge: Run workflow '' @ wf_name w),
       requireApproval =
         (case Option.bind options opt_requireApproval of
            Some b \<Rightarrow> b | None \<Rightarrow> config_requireApproval e) \<rparr>"

text \<open>
  \<^verbatim>\<open>{ ...step.task.input, ...input }\<close>: the keys of the template, each overwritten by
  the run's input where it has the key, followed by the run's other keys. Spreading
  \<^verbatim>\<open>undefined\<close> adds nothing.
\<close>

definition spread :: "payload \<Rightarrow> payload option \<Rightarrow> payload" where
  "spread template input =
     (case input of
        None \<Rightarrow> template
      | Some kvs \<Rightarrow> fold (\<lambda>(k, v). AList.update k v) kvs template)"

text \<open>The task handed to the dispatcher: \<^verbatim>\<open>{ ...step.task, input: taskInput }\<close>.\<close>

definition prepare_task :: "workflow_step \<Rightarrow> payload option \<Rightarrow> agent_task" where
  "prepare_task step input = (task step)\<lparr>task_input := spread (task_input (task step)) input\<rparr>"

text \<open>
  The state of the step loop: the variable \<^verbatim>\<open>currentStepId\<close> (\<open>None\<close> is
  \<^verbatim>\<open>undefined\<close>), the mutable context, the array \<^verbatim>\<open>results\<close> of
  \<^verbatim>\<open>{ step: step.name, result }\<close> entries, and the two logs.
\<close>

record run_state =
  currentStepId :: "string option"
  "context" :: agent_context
  results :: "(string \<times> agent_result) list"
  trace :: "event list"
  console :: "console_line list"

text \<open>The test of \<^verbatim>\<open>while (currentStepId)\<close>: \<^verbatim>\<open>undefined\<close> and \<^verbatim>\<open>""\<close> are falsy.\<close>

definition truthy :: "string option \<Rightarrow> bool" where
  "truthy s = (case s of None \<Rightarrow> False | Some i \<Rightarrow> i \<noteq> [])"

text \<open>
  \<^verbatim>\<open>if (typeof step.next === "function") currentStepId = step.next(context)
  else currentStepId = step.next\<close>: the new value of \<^verbatim>\<open>currentStepId\<close>, or the
  exception the selector throws.
\<close>

definition resolve_next :: "workflow_step \<Rightarrow> agent_context \<Rightarrow> js_error + string option" where
  "resolve_next step ctx =
     (case next step of
        None \<Rightarrow> Inr None
      | Some (Static i) \<Rightarrow> Inr (Some i)
      | Some (Computed f) \<Rightarrow> (case f ctx of Inl err \<Rightarrow> Inl err | Inr i \<Rightarrow> Inr (Some i)))"

text \<open>
  The test \<^verbatim>\<open>step.condition && !step.condition(context)\<close>: whether the step is
  skipped, or the exception the condition throws.
\<close>

definition should_skip :: "workflow_step \<Rightarrow> agent_context \<Rightarrow> js_error + bool" where
  "should_skip step ctx =
     (case condition step of
        None \<Rightarrow> Inr False
      | Some c \<Rightarrow> (case c ctx of Inl err \<Rightarrow> Inl err | Inr b \<Rightarrow> Inr (\<not> b)))"

definition approval_message :: "workflow_step \<Rightarrow> string" where
  "approval_message step =
     ''Step '' @ step_name step @ '' failed. Do you want to continue the workflow?''"

text \<open>
  One pass through the body of the \<^verbatim>\<open>while\<close> loop, entered with a truthy
  \<^verbatim>\<open>currentStepId\<close>. The pass ends in one of three ways: it reaches the end of the
  body or a \<^verbatim>\<open>continue\<close> (\<open>Next\<close>), it leaves the loop by \<^verbatim>\<open>break\<close>
  (\<open>Break\<close>), or an exception leaves it (\<open>Throw\<close>); each carries the state at
  that moment.
\<close>

datatype control = Next run_state | Break run_state | Throw js_error run_state

text \<open>
  The block that determines the next step, which the body has twice (before
  \<^verbatim>\<open>continue\<close> and at its end).
\<close>

definition advance :: "workflow_step \<Rightarrow> run_state \<Rightarrow> control" where
  "advance step st =
     (case resolve_next step (context st) of
        Inl err \<Rightarrow> Throw err st
      | Inr nxt \<Rightarrow> Next (st\<lparr>currentStepId := nxt\<rparr>))"

definition loop_body :: "env \<Rightarrow> workflow \<Rightarrow> payload option \<Rightarrow> bool \<Rightarrow> run_state \<Rightarrow> control" where
  "loop_body e w input reqApproval st =
     (case find (\<lambda>s. Some (step_id s) = currentStepId st) (steps w) of
        None \<Rightarrow> Break st
      | Some step \<Rightarrow>
          let st1 = st\<lparr>console := console st @ [Log (''Executing step: '' @ step_name step)]\<rparr>
          in
          (case should_skip step (context st1) of
             Inl err \<Rightarrow> Throw err st1
           | Inr skip \<Rightarrow>
               if skip then
                 advance step
                   (st1\<lparr>console := console st1 @
                      [Log (''Skipping step '' @ step_name step @ '' (condition not met)'')]\<rparr>)
               else
                 let t = prepare_task step input;
                     st2 = st1\<lparr>trace := trace st1 @ [EvDispatch t]\<rparr>
                 in
                 (case executeTask (agents e) t (context st2) of
                    Inl err \<Rightarrow> Throw err st2
                  | Inr result \<Rightarrow>
                      let ctx' = (context st2)
                            \<lparr>ctx_results :=
                               AList.update (step_id step) result (ctx_results (context st2))\<rparr>;
                          st3 = st2\<lparr>context := ctx',
                                    results := results st2 @ [(step_name step, result)]\<rparr>
                      in
                      if \<not> success result \<and> reqApproval then
                        let st4 = st3\<lparr>trace := trace st3 @ [EvAskApproval (approval_message step)],
                                      console := console st3 @ [Log (approval_message step)]\<rparr>
                        in
                        if \<not> approve e (approval_message step) then
                          Break (st4\<lparr>console := console st4 @
                                   [Log ''Workflow execution stopped by user.'']\<rparr>)
                        else advance step st4
                      else advance step st3)))"

text \<open>
  The \<^verbatim>\<open>while (currentStepId)\<close> loop. It has no bound, so it is a partial function:
  \<open>None\<close> is a loop that never ends. A loop that ends gives the exception that left
  it, if any, and the state at that moment.
\<close>

partial_function (option) run_steps ::
  "env \<Rightarrow> workflow \<Rightarrow> payload option \<Rightarrow> bool \<Rightarrow> run_state \<Rightarrow> (js_error option \<times> run_state) option"
where
  "run_steps e w input reqApproval st =
     (if \<not> truthy (currentStepId st) then Some (None, st)
      else
        case loop_body e w input reqApproval st of
          Next st' \<Rightarrow> run_steps e w input reqApproval st'
        | Break st' \<Rightarrow> Some (None, st')
        | Throw err st' \<Rightarrow> Some (Some err, st'))"

declare run_steps.simps [code]

text \<open>
  The context built before the loop: the analysed codebase under the run's root
  directory, no results, and \<^verbatim>\<open>options = { input }\<close> when an input was given
  (\<open>ctx_options_input\<close> holds that input; \<open>None\<close> is a context without options).
\<close>

definition initial_context :: "workflow_options \<Rightarrow> codebase_info \<Rightarrow> payload option \<Rightarrow> agent_context" where
  "initial_context wo cb input =
     \<lparr> codebase = \<lparr> rootDir = codebaseDir wo, files = files cb, ast = ast cb \<rparr>,
       currentFile = None,
       ctx_results = [],
       ctx_options_input = input \<rparr>"

definition initial_state ::
  "workflow_options \<Rightarrow> codebase_info \<Rightarrow> payload option \<Rightarrow> workflow_step \<Rightarrow> console_line list \<Rightarrow> run_state" where
  "initial_state wo cb input step0 con =
     \<lparr> currentStepId = Some (step_id step0),
       context = initial_context wo cb input,
       results = [],
       trace = [],
       console = con \<rparr>"

text \<open>
  The block after the loop: \<^verbatim>\<open>if (workflowOptions.autoCommit) { try { await gitCommit(..);
  await gitPush(); console.log(..) } catch (error) { console.error(..) } }\<close>.
\<close>

definition commit_changes :: "env \<Rightarrow> workflow_options \<Rightarrow> run_state \<Rightarrow> run_state" where
  "commit_changes e wo st =
     (if \<not> autoCommit wo then st
      else
        let st1 = st\<lparr>trace := trace st @ [EvGitCommit (commitMessage wo)]\<rparr>
        in case gitCommit e (commitMessage wo) of
             Inl err \<Rightarrow> st1\<lparr>console := console st1 @ [ConsoleError ''Failed to commit changes:'' err]\<rparr>
           | Inr _ \<Rightarrow>
               let st2 = st1\<lparr>trace := trace st1 @ [EvGitPush]\<rparr>
               in (case gitPush e of
                     Inl err \<Rightarrow> st2\<lparr>console := console st2 @ [ConsoleError ''Failed to commit changes:'' err]\<rparr>
                   | Inr _ \<Rightarrow> st2\<lparr>console := console st2 @ [Log ''Changes committed and pushed.'']\<rparr>))"

text \<open>
  What a call of \<^verbatim>\<open>runWorkflow\<close> leaves behind: the array it returns or the
  exception it rethrows, the calls it made and the console lines it wrote.
\<close>

record run_outcome =
  returned :: "js_error + (string \<times> agent_result) list"
  effects :: "event list"
  console_out :: "console_line list"

text \<open>The outer \<^verbatim>\<open>catch\<close>: \<^verbatim>\<open>console.error(`Error running workflow ${workflowId}:`, error); throw error\<close>.\<close>

definition rethrow :: "string \<Rightarrow> js_error \<Rightarrow> event list \<Rightarrow> console_line list \<Rightarrow> run_outcome" where
  "rethrow workflowId err tr con =
     \<lparr> returned = Inl err,
       effects = tr,
       console_out = con @ [ConsoleError (''Error running workflow '' @ workflowId @ '':'') err] \<rparr>"

text \<open>
  The code after the loop, reached when the loop ends without an exception: the
  completion line, the commit block, \<^verbatim>\<open>return results\<close>.
\<close>

definition finish_run :: "env \<Rightarrow> workflow_options \<Rightarrow> workflow \<Rightarrow> run_state \<Rightarrow> run_outcome" where
  "finish_run e wo w st =
     (let st' = commit_changes e wo
            (st\<lparr>console := console st @ [Log (''Workflow '' @ wf_name w @ '' completed.'')]\<rparr>)
      in \<lparr> returned = Inr (results st'), effects = trace st', console_out = console st' \<rparr>)"

text \<open>
  \<^verbatim>\<open>runWorkflow\<close>; \<open>None\<close> is a call that never returns. Reading
  \<^verbatim>\<open>workflow.steps[0].id\<close> of a workflow without steps raises a \<open>TypeError\<close>.
\<close>

definition runWorkflow ::
  "env \<Rightarrow> (string \<rightharpoonup> workflow) \<Rightarrow> string \<Rightarrow> payload option \<Rightarrow> run_options option \<Rightarrow> run_outcome option" where
  "runWorkflow e workflows workflowId input options =
     (case getWorkflow workflows workflowId of
        Inl err \<Rightarrow> Some (rethrow workflowId err [] [])
      | Inr w \<Rightarrow>
          let wo = set_default_options e w options;
              con = [Log (''Running workflow: '' @ wf_name w)]
          in (case analyzeCodebase e (codebaseDir wo) of
                Inl err \<Rightarrow> Some (rethrow workflowId err [] con)
              | Inr cb \<Rightarrow>
                  (case steps w of
                     [] \<Rightarrow>
                       Some (rethrow workflowId
                         (TypeError ''Cannot read properties of undefined (reading id)'') [] con)
                   | step0 # _ \<Rightarrow>
                       (case run_steps e w input (requireApproval wo)
                               (initial_state wo cb input step0 con) of
                          None \<Rightarrow> None
                        | Some (Some err, st) \<Rightarrow>
                            Some (rethrow workflowId err (trace st) (console st))
                        | Some (None, st) \<Rightarrow> Some (finish_run e wo w st)))))"

section \<open>Notions used to state the properties\<close>

text \<open>
  \<open>at_step w st step\<close>: the loop test passes in \<open>st\<close> and \<^verbatim>\<open>workflow.steps.find\<close>
  resolves \<^verbatim>\<open>currentStepId\<close> to \<open>step\<close>. The next five functions name the states a
  pass goes through: after the line that announces the step, after the line that
  announces a skip, after the dispatcher was called, after the result was stored in
  \<^verbatim>\<open>context.results\<close> and pushed on \<^verbatim>\<open>results\<close>, and after the approval question
  was asked.
\<close>

definition at_step :: "workflow \<Rightarrow> run_state \<Rightarrow> workflow_step \<Rightarrow> bool" where
  "at_step w st step \<longleftrightarrow>
     truthy (currentStepId st) \<and>
     find (\<lambda>s. Some (step_id s) = currentStepId st) (steps w) = Some step"

definition entered :: "workflow_step \<Rightarrow> run_state \<Rightarrow> run_state" where
  "entered step st = st\<lparr>console := console st @ [Log (''Executing step: '' @ step_name step)]\<rparr>"

definition skipped :: "workflow_step \<Rightarrow> run_state \<Rightarrow> run_state" where
  "skipped step st =
     (entered step st)\<lparr>console := console (entered step st) @
        [Log (''Skipping step '' @ step_name step @ '' (condition not met)'')]\<rparr>"

definition dispatched :: "workflow_step \<Rightarrow> payload option \<Rightarrow> run_state \<Rightarrow> run_state" where
  "dispatched step i st = (entered step st)\<lparr>trace := trace st @ [EvDispatch (prepare_task step i)]\<rparr>"

definition recorded :: "workflow_step \<Rightarrow> payload option \<Rightarrow> agent_result \<Rightarrow> run_state \<Rightarrow> run_state" where
  "recorded step i res st =
     (dispatched step i st)\<lparr>
        context := (context st)\<lparr>ctx_results := AList.update (step_id step) res (ctx_results (context st))\<rparr>,
        results := results st @ [(step_name step, res)]\<rparr>"

definition asked :: "workflow_step \<Rightarrow> run_state \<Rightarrow> run_state" where
  "asked step st = st\<lparr>trace := trace st @ [EvAskApproval (approval_message step)],
        console := console st @ [Log (approval_message step)]\<rparr>"

definition control_state :: "control \<Rightarrow> run_state" where
  "control_state c = (case c of Next s \<Rightarrow> s | Break s \<Rightarrow> s | Throw err s \<Rightarrow> s)"

text \<open>
  \<open>reachable e w i r st0 st\<close>: the loop started in \<open>st0\<close> comes to its test in state
  \<open>st\<close> after some number of complete passes. \<open>run_started\<close> holds when
  \<^verbatim>\<open>runWorkflow\<close> gets as far as the loop, which it then enters in \<open>st0\<close>;
  \<open>run_at\<close> says that the loop of that call comes to state \<open>st\<close>.
\<close>

inductive reachable :: "env \<Rightarrow> workflow \<Rightarrow> payload option \<Rightarrow> bool \<Rightarrow> run_state \<Rightarrow> run_state \<Rightarrow> bool"
  for e w i r st0 where
    start: "reachable e w i r st0 st0"
  | pass: "reachable e w i r st0 st \<Longrightarrow> truthy (currentStepId st) \<Longrightarrow>
           loop_body e w i r st = Next st' \<Longrightarrow> reachable e w i r st0 st'"

definition run_started ::
  "env \<Rightarrow> (string \<rightharpoonup> workflow) \<Rightarrow> string \<Rightarrow> payload option \<Rightarrow> run_options option \<Rightarrow>
     workflow \<Rightarrow> workflow_options \<Rightarrow> run_state \<Rightarrow> bool" where
  "run_started e ws wid input opts w wo st0 \<longleftrightarrow>
     getWorkflow ws wid = Inr w \<and> wo = set_default_options e w opts \<and>
     (case analyzeCodebase e (codebaseDir wo) of
        Inl err \<Rightarrow> False
      | Inr cb \<Rightarrow>
          (case steps w of
             [] \<Rightarrow> False
           | step0 # rest \<Rightarrow>
               st0 = initial_state wo cb input step0 [Log (''Running workflow: '' @ wf_name w)]))"

definition run_at ::
  "env \<Rightarrow> (string \<rightharpoonup> workflow) \<Rightarrow> string \<Rightarrow> payload option \<Rightarrow> run_options option \<Rightarrow>
     workflow \<Rightarrow> workflow_options \<Rightarrow> run_state \<Rightarrow> bool" where
  "run_at e ws wid input opts w wo st \<longleftrightarrow>
     (\<exists>st0. run_started e ws wid input opts w wo st0 \<and>
            reachable e w input (requireApproval wo) st0 st)"

text \<open>
  \<open>run_outcome_of\<close>: what \<^verbatim>\<open>runWorkflow\<close> makes of the way its loop ends (never,
  without an exception, or with one). \<open>continues_at\<close>: the pass made in \<open>st\<close> ends
  at the loop test in \<open>st'\<close> and the run goes on from there: the loop from \<open>st\<close> is
  the loop from \<open>st'\<close>, and what \<^verbatim>\<open>runWorkflow\<close> returns is what the loop from
  \<open>st'\<close> leads to. \<open>denial_break\<close>: the pass made in \<open>st\<close> leaves
  the loop by the \<^verbatim>\<open>break\<close> that follows a refused approval, the only
  \<^verbatim>\<open>break\<close> taken with a step at hand (the state Aborted of the specification).
  \<open>completed\<close>: the loop has ended in \<open>st\<close> because there is no next step:
  \<^verbatim>\<open>currentStepId\<close> is falsy, or it names no step of the workflow (the state
  Completed of the specification).
\<close>

definition run_outcome_of ::
  "string \<Rightarrow> env \<Rightarrow> workflow_options \<Rightarrow> workflow \<Rightarrow>
     (js_error option \<times> run_state) option \<Rightarrow> run_outcome option" where
  "run_outcome_of wid e wo w ended =
     (case ended of
        None \<Rightarrow> None
      | Some (None, st) \<Rightarrow> Some (finish_run e wo w st)
      | Some (Some err, st) \<Rightarrow> Some (rethrow wid err (trace st) (console st)))"

definition continues_at ::
  "env \<Rightarrow> (string \<rightharpoonup> workflow) \<Rightarrow> string \<Rightarrow> payload option \<Rightarrow> run_options option \<Rightarrow>
     workflow \<Rightarrow> workflow_options \<Rightarrow> run_state \<Rightarrow> run_state \<Rightarrow> bool" where
  "continues_at e ws wid input opts w wo st st' \<longleftrightarrow>
     loop_body e w input (requireApproval wo) st = Next st' \<and>
     run_at e ws wid input opts w wo st' \<and>
     run_steps e w input (requireApproval wo) st = run_steps e w input (requireApproval wo) st' \<and>
     runWorkflow e ws wid input opts =
       run_outcome_of wid e wo w (run_steps e w input (requireApproval wo) st')"

definition denial_break :: "env \<Rightarrow> workflow \<Rightarrow> payload option \<Rightarrow> bool \<Rightarrow> run_state \<Rightarrow> bool" where
  "denial_break e w i r st \<longleftrightarrow>
     truthy (currentStepId st) \<and>
     find (\<lambda>s. Some (step_id s) = currentStepId st) (steps w) \<noteq> None \<and>
     (case loop_body e w i r st of Break st' \<Rightarrow> True | Next st' \<Rightarrow> False | Throw err st' \<Rightarrow> False)"

definition completed :: "workflow \<Rightarrow> run_state \<Rightarrow> bool" where
  "completed w st \<longleftrightarrow>
     \<not> truthy (currentStepId st) \<or>
     find (\<lambda>s. Some (step_id s) = currentStepId st) (steps w) = None"

text \<open>
  The shape of the trace a loop leaves: one \<open>EvDispatch\<close> per executed step,
  followed by at most one \<open>EvAskApproval\<close>, which needs \<open>r\<close>
  (\<^verbatim>\<open>requireApproval\<close>); nothing else. \<open>commit_events\<close> are the calls of the
  commit block.
\<close>

fun step_events :: "bool \<Rightarrow> event list \<Rightarrow> bool" where
  "step_events r [] = True"
| "step_events r (EvDispatch t # EvAskApproval m # rest) = (r \<and> step_events r rest)"
| "step_events r (EvDispatch t # rest) = step_events r rest"
| "step_events r (ev # rest) = False"

definition hook_events :: "event list \<Rightarrow> event list" where
  "hook_events evs =
     filter (\<lambda>ev. case ev of EvGitCommit m \<Rightarrow> True | EvGitPush \<Rightarrow> True | _ \<Rightarrow> False) evs"

definition approval_events :: "event list \<Rightarrow> event list" where
  "approval_events evs = filter (\<lambda>ev. case ev of EvAskApproval m \<Rightarrow> True | _ \<Rightarrow> False) evs"

definition commit_events :: "env \<Rightarrow> workflow_options \<Rightarrow> event list" where
  "commit_events e wo =
     (if autoCommit wo then
        EvGitCommit (commitMessage wo) #
          (case gitCommit e (commitMessage wo) of Inl err \<Rightarrow> [] | Inr u \<Rightarrow> [EvGitPush])
      else [])"

section \<open>Linear workflows and the graph of next references\<close>

text \<open>
  \<open>chained\<close>: each step's \<^verbatim>\<open>next\<close> is the static id of the step declared after it,
  and the last step has none. \<open>served_by_stub\<close>: every step's task type names a
  registered agent that returns a successful result on every call.
\<close>

fun chained :: "workflow_step list \<Rightarrow> bool" where
  "chained [] = True"
| "chained [s] = (next s = None)"
| "chained (s # t # rest) = (next s = Some (Static (step_id t)) \<and> chained (t # rest))"

definition always_succeeds :: "agent \<Rightarrow> bool" where
  "always_succeeds a \<longleftrightarrow> (\<forall>t ctx. \<exists>res. agent_executeTask a t ctx = Inr res \<and> success res)"

definition served_by_stub :: "env \<Rightarrow> workflow \<Rightarrow> bool" where
  "served_by_stub e w \<longleftrightarrow>
     (\<forall>s \<in> set (steps w). \<exists>n a. task_type_agent (task_type (task s)) = Some n \<and>
        agents e n = Some a \<and> always_succeeds a)"

text \<open>
  The graph of next references over the step ids of a workflow: an edge from a step's
  id to every id its \<^verbatim>\<open>next\<close> can give (the static id, or any value the computed
  selector returns on some context) that is the id of a step.
\<close>

definition next_targets :: "workflow_step \<Rightarrow> string set" where
  "next_targets s =
     (case next s of
        None \<Rightarrow> {}
      | Some (Static i) \<Rightarrow> {i}
      | Some (Computed f) \<Rightarrow> {i. \<exists>ctx. f ctx = Inr i})"

definition next_edges :: "workflow \<Rightarrow> (string \<times> string) set" where
  "next_edges w =
     {(a, b). \<exists>s \<in> set (steps w). step_id s = a \<and> b \<in> next_targets s \<and>
        b \<in> step_id ` set (steps w)}"

text \<open>
  A task has no worker when its type falls to the \<^verbatim>\<open>default\<close> case or names an
  agent that is not registered; \<open>unavailable_message\<close> is the message of the error
  thrown then.
\<close>

definition worker_unavailable :: "(string \<rightharpoonup> agent) \<Rightarrow> agent_task \<Rightarrow> bool" where
  "worker_unavailable ags t \<longleftrightarrow>
     (case task_type_agent (task_type t) of None \<Rightarrow> True | Some n \<Rightarrow> ags n = None)"

definition unavailable_message :: "agent_task \<Rightarrow> string" where
  "unavailable_message t =
     (case task_type_agent (task_type t) of
        None \<Rightarrow> ''Unknown task type: '' @ task_type t
      | Some n \<Rightarrow> ''Agent '' @ n @ '' not found'')"

section \<open>Example inputs\<close>

definition ok_result :: agent_result where
  "ok_result = \<lparr> success = True, output = Some ''done'', error = None, metadata = None \<rparr>"

definition failed_result :: agent_result where
  "failed_result = \<lparr> success = False, output = None, error = Some ''boom'', metadata = None \<rparr>"

definition stub :: "agent_result \<Rightarrow> agent" where
  "stub res = \<lparr> agent_name = ''Stub'', agent_description = ''returns a fixed result'',
      capabilities = [], agent_executeTask = (\<lambda>t ctx. Inr res) \<rparr>"

definition mk_task :: "string \<Rightarrow> string \<Rightarrow> agent_task" where
  "mk_task i ty = \<lparr> task_id = i, task_type = ty, task_description = i, task_input = [],
      task_options = None \<rparr>"

definition mk_step :: "string \<Rightarrow> string \<Rightarrow> next_selector option \<Rightarrow> workflow_step" where
  "mk_step i ty n = \<lparr> step_id = i, step_name = i, step_description = i, task = mk_task i ty,
      condition = None, next = n \<rparr>"

definition mk_env :: "(string \<rightharpoonup> agent) \<Rightarrow> bool \<Rightarrow> env" where
  "mk_env ags answer = \<lparr> agents = ags, config_autoCommit = False, config_requireApproval = False,
     cwd = ''/repo'', analyzeCodebase = (\<lambda>d. Inr \<lparr> rootDir = d, files = [], ast = None \<rparr>),
     approve = (\<lambda>m. answer), gitCommit = (\<lambda>m. Inr ()), gitPush = Inr (),
     fs_mkdir = (\<lambda>d. Inr ()), fs_writeFile = (\<lambda>p c. Inr ()), json_stringify = (\<lambda>w. []) \<rparr>"

definition mk_options :: "bool \<Rightarrow> bool \<Rightarrow> run_options option" where
  "mk_options commit approval = Some \<lparr> opt_codebaseDir = None, opt_autoCommit = Some commit,
     opt_commitMessage = None, opt_requireApproval = Some approval \<rparr>"

definition two_steps :: workflow where
  "two_steps = \<lparr> wf_id = ''w'', wf_name = ''W'', wf_description = ''two steps'',
     steps = [mk_step ''a'' ''testing'' (Some (Static ''b'')), mk_step ''b'' ''testing'' None] \<rparr>"

definition empty_workflow :: workflow where
  "empty_workflow = \<lparr> wf_id = [], wf_name = [], wf_description = [], steps = [] \<rparr>"

definition never :: "agent_context \<Rightarrow> js_error + bool" where
  "never ctx = Inr False"

definition guarded_steps :: workflow where
  "guarded_steps = \<lparr> wf_id = ''g'', wf_name = ''G'', wf_description = ''guarded first step'',
     steps = [(mk_step ''a'' ''testing'' (Some (Static ''b'')))\<lparr>condition := Some never\<rparr>,
              mk_step ''b'' ''testing'' None] \<rparr>"

definition dangling_next :: workflow where
  "dangling_next = \<lparr> wf_id = ''d'', wf_name = ''D'', wf_description = ''next names no step'',
     steps = [mk_step ''a'' ''testing'' (Some (Static ''zz''))] \<rparr>"

definition ex_codebase :: "string \<Rightarrow> codebase_info" where
  "ex_codebase d = \<lparr> rootDir = d, files = [], ast = None \<rparr>"

definition ex_start :: "env \<Rightarrow> workflow \<Rightarrow> run_options option \<Rightarrow> run_state" where
  "ex_start e w opts =
     initial_state (set_default_options e w opts) (ex_codebase ''/repo'') None (hd (steps w))
       [Log (''Running workflow: '' @ wf_name w)]"

definition failing_commit :: "env \<Rightarrow> env" where
  "failing_commit e = e\<lparr>gitCommit := (\<lambda>m. Inl (Error ''git failed''))\<rparr>"

definition blank_id_step :: workflow where
  "blank_id_step = \<lparr> wf_id = ''e'', wf_name = ''E'', wf_description = ''one step, empty id'',
     steps = [mk_step [] ''testing'' None] \<rparr>"

definition self_loop :: workflow where
  "self_loop = \<lparr> wf_id = ''l'', wf_name = ''L'', wf_description = ''a step that names itself'',
     steps = [mk_step ''s1'' ''testing'' (Some (Static ''s1''))] \<rparr>"

text \<open>
  The selector \<^verbatim>\<open>ctx => ctx.results[k].output.ok ? "b" : "c"\<close> of the kind the
  specification uses in its scenario: it throws a \<^verbatim>\<open>TypeError\<close> when the context has
  no result under \<open>k\<close>, or a result whose output is \<^verbatim>\<open>null\<close>.
\<close>

definition reads_output :: "string \<Rightarrow> agent_context \<Rightarrow> js_error + string" where
  "reads_output k ctx =
     (case map_of (ctx_results ctx) k of
        None \<Rightarrow> Inl (TypeError ''Cannot read properties of undefined (reading output)'')
      | Some res \<Rightarrow>
          (case output res of
             None \<Rightarrow> Inl (TypeError ''Cannot read properties of null (reading ok)'')
           | Some v \<Rightarrow> Inr (if v = ''done'' then ''b'' else ''c'')))"

definition guarded_branch :: workflow where
  "guarded_branch = \<lparr> wf_id = ''g'', wf_name = ''G'',
     wf_description = ''guarded first step with a computed next'',
     steps = [(mk_step ''a'' ''testing'' (Some (Computed (reads_output ''a''))))
                \<lparr>condition := Some never\<rparr>,
              mk_step ''b'' ''testing'' None] \<rparr>"

definition branch_on_output :: workflow where
  "branch_on_output = \<lparr> wf_id = ''o'', wf_name = ''O'',
     wf_description = ''first step with a computed next'',
     steps = [mk_step ''a'' ''testing'' (Some (Computed (reads_output ''a''))),
              mk_step ''b'' ''testing'' None] \<rparr>"

section \<open>One pass of the loop, case by case\<close>

lemmas ex_defs = ok_result_def failed_result_def stub_def mk_task_def mk_step_def mk_env_def
  mk_options_def two_steps_def

lemmas run_defs = runWorkflow_def getWorkflow_def set_default_options_def or_default_def
  initial_state_def initial_context_def run_steps.simps loop_body_def truthy_def should_skip_def
  prepare_task_def spread_def executeTask_def task_type_agent_def getAgent_def approval_message_def
  finish_run_def commit_changes_def resolve_next_def rethrow_def Let_def

lemma body_unknown:
  "find (\<lambda>s. Some (step_id s) = currentStepId st) (steps w) = None \<Longrightarrow> loop_body e w i r st = Break st"
  by (simp add: loop_body_def)

lemma advance_next:
  "resolve_next step (context st) = Inr nxt \<Longrightarrow> advance step st = Next (st\<lparr>currentStepId := nxt\<rparr>)"
  by (simp add: advance_def)

lemma advance_throw:
  "resolve_next step (context st) = Inl err \<Longrightarrow> advance step st = Throw err st"
  by (simp add: advance_def)

lemma body_condition_throw:
  "at_step w st step \<Longrightarrow> should_skip step (context st) = Inl err \<Longrightarrow>
   loop_body e w i r st = Throw err (entered step st)"
  by (simp add: loop_body_def at_step_def entered_def)

lemma body_skip:
  "at_step w st step \<Longrightarrow> should_skip step (context st) = Inr True \<Longrightarrow>
   loop_body e w i r st = advance step (skipped step st)"
  by (simp add: loop_body_def at_step_def entered_def skipped_def)

lemma body_throw:
  "at_step w st step \<Longrightarrow> should_skip step (context st) = Inr False \<Longrightarrow>
   executeTask (agents e) (prepare_task step i) (context st) = Inl err \<Longrightarrow>
   loop_body e w i r st = Throw err (dispatched step i st)"
  by (simp add: loop_body_def at_step_def entered_def dispatched_def)

lemma body_continue:
  "at_step w st step \<Longrightarrow> should_skip step (context st) = Inr False \<Longrightarrow>
   executeTask (agents e) (prepare_task step i) (context st) = Inr res \<Longrightarrow>
   success res \<or> \<not> r \<Longrightarrow>
   loop_body e w i r st = advance step (recorded step i res st)"
  by (auto simp add: loop_body_def at_step_def entered_def dispatched_def recorded_def Let_def)

lemma body_denied:
  "at_step w st step \<Longrightarrow> should_skip step (context st) = Inr False \<Longrightarrow>
   executeTask (agents e) (prepare_task step i) (context st) = Inr res \<Longrightarrow>
   \<not> success res \<Longrightarrow> r \<Longrightarrow> \<not> approve e (approval_message step) \<Longrightarrow>
   loop_body e w i r st =
   Break ((asked step (recorded step i res st))
       \<lparr>console := console (asked step (recorded step i res st)) @ [Log ''Workflow execution stopped by user.'']\<rparr>)"
  by (auto simp add: loop_body_def at_step_def entered_def dispatched_def recorded_def asked_def Let_def)

lemma body_approved:
  "at_step w st step \<Longrightarrow> should_skip step (context st) = Inr False \<Longrightarrow>
   executeTask (agents e) (prepare_task step i) (context st) = Inr res \<Longrightarrow>
   \<not> success res \<Longrightarrow> r \<Longrightarrow> approve e (approval_message step) \<Longrightarrow>
   loop_body e w i r st = advance step (asked step (recorded step i res st))"
  by (auto simp add: loop_body_def at_step_def entered_def dispatched_def recorded_def asked_def Let_def)

lemma run_steps_stop:
  "\<not> truthy (currentStepId st) \<Longrightarrow> run_steps e w i r st = Some (None, st)"
  by (subst run_steps.simps) simp

lemma run_steps_next:
  "truthy (currentStepId st) \<Longrightarrow> loop_body e w i r st = Next st' \<Longrightarrow>
   run_steps e w i r st = run_steps e w i r st'"
  by (subst run_steps.simps) simp

lemma run_steps_break:
  "truthy (currentStepId st) \<Longrightarrow> loop_body e w i r st = Break st' \<Longrightarrow>
   run_steps e w i r st = Some (None, st')"
  by (subst run_steps.simps) simp

lemma run_steps_throw:
  "truthy (currentStepId st) \<Longrightarrow> loop_body e w i r st = Throw err st' \<Longrightarrow>
   run_steps e w i r st = Some (Some err, st')"
  by (subst run_steps.simps) simp

lemma run_steps_unknown:
  "find (\<lambda>s. Some (step_id s) = currentStepId st) (steps w) = None \<Longrightarrow>
   run_steps e w i r st = Some (None, st)"
  by (cases "truthy (currentStepId st)") (simp_all add: run_steps_stop run_steps_break body_unknown)

lemma reachable_run_steps:
  "reachable e w i r st0 st \<Longrightarrow> run_steps e w i r st0 = run_steps e w i r st"
  by (induction rule: reachable.induct) (simp_all add: run_steps_next)

lemma runWorkflow_started:
  assumes "run_started e ws wid input opts w wo st0"
  shows "runWorkflow e ws wid input opts =
     (case run_steps e w input (requireApproval wo) st0 of
        None \<Rightarrow> None
      | Some (Some err, st) \<Rightarrow> Some (rethrow wid err (trace st) (console st))
      | Some (None, st) \<Rightarrow> Some (finish_run e wo w st))"
  using assms
  by (auto simp add: run_started_def runWorkflow_def Let_def split: sum.splits list.splits)

lemma run_at_finish:
  "run_at e ws wid input opts w wo st \<Longrightarrow>
   run_steps e w input (requireApproval wo) st = Some (None, st') \<Longrightarrow>
   runWorkflow e ws wid input opts = Some (finish_run e wo w st')"
  by (auto simp add: run_at_def runWorkflow_started dest!: reachable_run_steps)

lemma run_at_rethrow:
  "run_at e ws wid input opts w wo st \<Longrightarrow>
   run_steps e w input (requireApproval wo) st = Some (Some err, st') \<Longrightarrow>
   runWorkflow e ws wid input opts = Some (rethrow wid err (trace st') (console st'))"
  by (auto simp add: run_at_def runWorkflow_started dest!: reachable_run_steps)

lemma run_at_next:
  "run_at e ws wid input opts w wo st \<Longrightarrow> truthy (currentStepId st) \<Longrightarrow>
   loop_body e w input (requireApproval wo) st = Next st' \<Longrightarrow>
   run_at e ws wid input opts w wo st'"
  by (auto simp add: run_at_def intro: reachable.pass)

lemma trace_commit_changes: "trace (commit_changes e wo st) = trace st @ commit_events e wo"
  by (simp add: commit_changes_def commit_events_def Let_def split: sum.splits)

lemma results_commit_changes: "results (commit_changes e wo st) = results st"
  by (simp add: commit_changes_def Let_def split: sum.splits)

lemma returned_finish_run: "returned (finish_run e wo w st) = Inr (results st)"
  by (simp add: finish_run_def Let_def results_commit_changes)

lemma effects_finish_run: "effects (finish_run e wo w st) = trace st @ commit_events e wo"
  by (simp add: finish_run_def Let_def trace_commit_changes)

lemma run_at_outcome_of:
  "run_at e ws wid input opts w wo st \<Longrightarrow>
   runWorkflow e ws wid input opts =
     run_outcome_of wid e wo w (run_steps e w input (requireApproval wo) st)"
  by (auto simp add: run_at_def runWorkflow_started run_outcome_of_def
      dest!: reachable_run_steps split: option.splits)

lemma continues_atI:
  assumes "run_at e ws wid input opts w wo st"
      and "truthy (currentStepId st)"
      and "loop_body e w input (requireApproval wo) st = Next st'"
  shows "continues_at e ws wid input opts w wo st st'"
proof -
  from assms have ra: "run_at e ws wid input opts w wo st'" by (rule run_at_next)
  from assms(2,3) have "run_steps e w input (requireApproval wo) st =
      run_steps e w input (requireApproval wo) st'"
    by (rule run_steps_next)
  with assms(3) ra run_at_outcome_of [OF ra] show ?thesis
    by (simp add: continues_at_def)
qed

lemma thrown_outcome:
  assumes "run_at e ws wid input opts w wo st"
      and "truthy (currentStepId st)"
      and "loop_body e w input (requireApproval wo) st = Throw err st'"
  shows "runWorkflow e ws wid input opts = Some (rethrow wid err (trace st') (console st'))"
proof -
  from assms(2,3) have "run_steps e w input (requireApproval wo) st = Some (Some err, st')"
    by (rule run_steps_throw)
  with assms(1) show ?thesis by (rule run_at_rethrow)
qed

section \<open>Traces and results along a run\<close>

lemma step_events_single: "step_events r b \<Longrightarrow> step_events r (EvDispatch t # b)"
  by (cases "(r, b)" rule: step_events.cases) auto

lemma step_events_append:
  "step_events r a \<Longrightarrow> step_events r b \<Longrightarrow> step_events r (a @ b)"
  by (induction r a rule: step_events.induct) (auto simp add: step_events_single)

lemma step_events_hooks: "step_events r evs \<Longrightarrow> hook_events evs = []"
  by (induction r evs rule: step_events.induct) (auto simp add: hook_events_def)

lemma step_events_no_approval: "step_events False evs \<Longrightarrow> approval_events evs = []"
  by (induction "False" evs rule: step_events.induct) (auto simp add: approval_events_def)

lemma step_events_head:
  "step_events r evs \<Longrightarrow> (case evs of EvAskApproval m # others \<Rightarrow> False | _ \<Rightarrow> True)"
  by (cases "(r, evs)" rule: step_events.cases) auto

lemma body_trace:
  "\<exists>evs. trace (control_state (loop_body e w i r st)) = trace st @ evs \<and> step_events r evs"
  by (simp add: loop_body_def advance_def control_state_def Let_def
      split: option.splits sum.splits)

lemma body_results:
  "\<exists>rs. results (control_state (loop_body e w i r st)) = results st @ rs"
  by (simp add: loop_body_def advance_def control_state_def Let_def
      split: option.splits sum.splits)

lemma reachable_trace:
  "reachable e w i r st0 st \<Longrightarrow> \<exists>evs. trace st = trace st0 @ evs \<and> step_events r evs"
proof (induction rule: reachable.induct)
  case start
  show ?case by simp
next
  case (pass st st')
  then obtain evs where evs: "trace st = trace st0 @ evs" "step_events r evs" by blast
  from body_trace [of e w i r st] pass(3)
  obtain evs' where evs': "trace st' = trace st @ evs'" "step_events r evs'"
    by (auto simp add: control_state_def)
  from evs evs' have "trace st' = trace st0 @ (evs @ evs')" "step_events r (evs @ evs')"
    by (simp_all add: step_events_append)
  then show ?case by blast
qed

lemma reachable_results:
  "reachable e w i r st0 st \<Longrightarrow> \<exists>rs. results st = results st0 @ rs"
proof (induction rule: reachable.induct)
  case start
  show ?case by simp
next
  case (pass st st')
  then obtain rs where rs: "results st = results st0 @ rs" by blast
  from body_results [of e w i r st] pass(3)
  obtain rs' where "results st' = results st @ rs'"
    by (auto simp add: control_state_def)
  with rs have "results st' = results st0 @ (rs @ rs')" by simp
  then show ?case by blast
qed

lemma run_steps_trace:
  "run_steps e w i r st = Some y \<Longrightarrow> \<exists>evs. trace (snd y) = trace st @ evs \<and> step_events r evs"
proof (induction rule: run_steps.raw_induct[rotated 1, consumes 1])
  case (1 f e w i r st y)
  show ?case
  proof (cases "truthy (currentStepId st)")
    case False
    with 1(2) show ?thesis by auto
  next
    case True
    obtain evs where evs:
      "trace (control_state (loop_body e w i r st)) = trace st @ evs" "step_events r evs"
      using body_trace by blast
    show ?thesis
    proof (cases "loop_body e w i r st")
      case (Next st')
      with True 1(2) have "f e w i r st' = Some y" by simp
      from 1(1)[OF this] obtain evs' where
        evs': "trace (snd y) = trace st' @ evs'" "step_events r evs'" by blast
      from evs Next have "trace st' = trace st @ evs" by (simp add: control_state_def)
      with evs' evs have "trace (snd y) = trace st @ (evs @ evs')" "step_events r (evs @ evs')"
        by (simp_all add: step_events_append)
      then show ?thesis by blast
    next
      case (Break st')
      with True 1(2) evs show ?thesis by (auto simp: control_state_def)
    next
      case (Throw err st')
      with True 1(2) evs show ?thesis by (auto simp: control_state_def)
    qed
  qed
qed

lemma run_started_initial:
  "run_started e ws wid input opts w wo st0 \<Longrightarrow> trace st0 = [] \<and> results st0 = []"
  by (auto simp add: run_started_def initial_state_def split: sum.splits list.splits)

lemma run_at_start: "run_started e ws wid input opts w wo st0 \<Longrightarrow> run_at e ws wid input opts w wo st0"
  by (auto simp add: run_at_def intro: reachable.start)

lemma run_at_trace:
  "run_at e ws wid input opts w wo st \<Longrightarrow> step_events (requireApproval wo) (trace st)"
  by (auto simp add: run_at_def dest!: reachable_trace run_started_initial)

lemma run_at_outcome:
  assumes "run_at e ws wid input opts w wo st"
      and "runWorkflow e ws wid input opts = Some out"
  shows "\<exists>evs. step_events (requireApproval wo) evs \<and>
           (effects out = trace st @ evs @ commit_events e wo \<or> effects out = trace st @ evs)"
proof -
  from assms(1) obtain st0 where
    st0: "run_started e ws wid input opts w wo st0"
         "reachable e w input (requireApproval wo) st0 st"
    by (auto simp add: run_at_def)
  have eq: "run_steps e w input (requireApproval wo) st0 = run_steps e w input (requireApproval wo) st"
    using st0(2) by (rule reachable_run_steps)
  from assms(2) st0(1) eq obtain x stf where
    fin: "run_steps e w input (requireApproval wo) st = Some (x, stf)"
    by (auto simp add: runWorkflow_started split: option.splits)
  from run_steps_trace [OF fin] obtain evs where
    evs: "trace stf = trace st @ evs" "step_events (requireApproval wo) evs" by auto
  show ?thesis
  proof (cases x)
    case None
    with fin assms have "out = finish_run e wo w stf"
      by (simp add: run_at_finish)
    with evs show ?thesis by (auto simp add: effects_finish_run)
  next
    case (Some err)
    with fin assms have "out = rethrow wid err (trace stf) (console stf)"
      by (simp add: run_at_rethrow)
    with evs show ?thesis by (auto simp add: rethrow_def)
  qed
qed

section \<open>The example runs\<close>

lemma run_started_intro:
  "getWorkflow ws wid = Inr w \<Longrightarrow>
   analyzeCodebase e (codebaseDir (set_default_options e w opts)) = Inr cb \<Longrightarrow>
   steps w = s # rest \<Longrightarrow>
   run_started e ws wid input opts w (set_default_options e w opts)
     (initial_state (set_default_options e w opts) cb input s
        [Log (''Running workflow: '' @ wf_name w)])"
  by (simp add: run_started_def)

lemma ex_run_at:
  assumes "steps w \<noteq> []"
  shows "run_at (mk_env ags answer) [wf_id w \<mapsto> w] (wf_id w) None (mk_options c a) w
     (set_default_options (mk_env ags answer) w (mk_options c a))
     (ex_start (mk_env ags answer) w (mk_options c a))"
proof -
  let ?e = "mk_env ags answer"
  let ?wo = "set_default_options ?e w (mk_options c a)"
  from assms obtain s rest where s: "steps w = s # rest" by (cases "steps w") auto
  have g: "getWorkflow [wf_id w \<mapsto> w] (wf_id w) = Inr w"
    by (simp add: getWorkflow_def)
  have d: "codebaseDir ?wo = ''/repo''"
    by (simp add: set_default_options_def mk_options_def or_default_def mk_env_def)
  have a: "analyzeCodebase ?e (codebaseDir ?wo) = Inr (ex_codebase ''/repo'')"
    by (simp add: d) (simp add: mk_env_def ex_codebase_def)
  from run_started_intro [OF g a s, of None]
  have "run_started ?e [wf_id w \<mapsto> w] (wf_id w) None (mk_options c a) w ?wo
          (ex_start ?e w (mk_options c a))"
    by (simp add: ex_start_def s)
  then show ?thesis by (rule run_at_start)
qed

lemma ex_at_first:
  "steps w = s # rest \<Longrightarrow> step_id s \<noteq> [] \<Longrightarrow> at_step w (ex_start e w opts) s"
  by (simp add: at_step_def ex_start_def initial_state_def truthy_def)

lemma ex_wo:
  "requireApproval (set_default_options (mk_env ags answer) w (mk_options c a)) = a"
  "autoCommit (set_default_options (mk_env ags answer) w (mk_options c a)) = c"
  "commitMessage (set_default_options (mk_env ags answer) w (mk_options c a)) =
     ''CodeForge: Run workflow '' @ wf_name w"
  by (simp_all add: set_default_options_def mk_options_def or_default_def)

lemma ex_start_fields:
  "trace (ex_start e w opts) = []" "results (ex_start e w opts) = []"
  "ctx_results (context (ex_start e w opts)) = []"
  by (simp_all add: ex_start_def initial_state_def initial_context_def)

lemma step_events_commit_head:
  "step_events r evs \<Longrightarrow>
   (case evs @ commit_events e wo of EvAskApproval m # others \<Rightarrow> False | _ \<Rightarrow> True)"
  by (cases "(r, evs)" rule: step_events.cases)
     (auto simp add: commit_events_def split: sum.splits)

lemma worker_unavailable_prepare:
  "worker_unavailable ags (prepare_task step i) = worker_unavailable ags (task step)"
  "unavailable_message (prepare_task step i) = unavailable_message (task step)"
  by (simp_all add: worker_unavailable_def unavailable_message_def prepare_task_def
      split: option.splits)

lemma executeTask_unavailable:
  "worker_unavailable ags t \<Longrightarrow> executeTask ags t ctx = Inl (Error (unavailable_message t))"
  by (auto simp add: worker_unavailable_def unavailable_message_def executeTask_def getAgent_def
      split: option.splits)

lemma approval_events_append:
  "approval_events (a @ b) = approval_events a @ approval_events b"
  by (simp add: approval_events_def)

lemma approval_events_commit: "approval_events (commit_events e wo) = []"
  by (simp add: approval_events_def commit_events_def split: sum.splits)

lemma commit_failure_logged:
  assumes "autoCommit wo"
      and "gitCommit e (commitMessage wo) = Inl err \<or>
           (gitCommit e (commitMessage wo) = Inr u \<and> gitPush e = Inl err)"
  shows "ConsoleError ''Failed to commit changes:'' err \<in> set (console (commit_changes e wo st))"
  using assms by (auto simp add: commit_changes_def Let_def)

lemma console_finish_run:
  "console_out (finish_run e wo w st) =
     console (commit_changes e wo
       (st\<lparr>console := console st @ [Log (''Workflow '' @ wf_name w @ '' completed.'')]\<rparr>))"
  by (simp add: finish_run_def Let_def)

lemma commit_events_autoCommit:
  "autoCommit wo \<Longrightarrow>
   commit_events e wo =
     EvGitCommit (commitMessage wo) #
       (case gitCommit e (commitMessage wo) of Inl err \<Rightarrow> [] | Inr u \<Rightarrow> [EvGitPush])"
  by (simp add: commit_events_def)

lemma ex_step_facts:
  "should_skip (mk_step i ty n) ctx = Inr False"
  "prepare_task (mk_step i ty n) None = mk_task i ty"
  "step_name (mk_step i ty n) = i"
  "step_id (mk_step i ty n) = i"
  "approval_message (mk_step ''a'' ty n) = ''Step a failed. Do you want to continue the workflow?''"
  "approve (mk_env ags answer) m = answer"
  "executeTask (agents (mk_env [''testing'' \<mapsto> stub r] answer)) (mk_task i ''testing'') ctx = Inr r"
  by (simp_all add: should_skip_def prepare_task_def spread_def mk_step_def mk_task_def
      approval_message_def mk_env_def executeTask_def task_type_agent_def getAgent_def stub_def)

lemma ex_run_started:
  assumes "steps w \<noteq> []"
  shows "run_started (mk_env ags answer) [wf_id w \<mapsto> w] (wf_id w) None (mk_options c a) w
     (set_default_options (mk_env ags answer) w (mk_options c a))
     (ex_start (mk_env ags answer) w (mk_options c a))"
proof -
  let ?e = "mk_env ags answer"
  let ?wo = "set_default_options ?e w (mk_options c a)"
  from assms obtain s rest where s: "steps w = s # rest" by (cases "steps w") auto
  have g: "getWorkflow [wf_id w \<mapsto> w] (wf_id w) = Inr w"
    by (simp add: getWorkflow_def)
  have d: "codebaseDir ?wo = ''/repo''"
    by (simp add: set_default_options_def mk_options_def or_default_def mk_env_def)
  have a: "analyzeCodebase ?e (codebaseDir ?wo) = Inr (ex_codebase ''/repo'')"
    by (simp add: d) (simp add: mk_env_def ex_codebase_def)
  from run_started_intro [OF g a s, of None]
  show ?thesis by (simp add: ex_start_def s)
qed

lemma ex_two_steps:
  "wf_id two_steps = ''w''" "wf_name two_steps = ''W''"
  "steps two_steps = [mk_step ''a'' ''testing'' (Some (Static ''b'')), mk_step ''b'' ''testing'' None]"
  by (simp_all add: two_steps_def)

lemma run_last_step:
  assumes "at_step w st s" and "should_skip s (context st) = Inr False"
      and "executeTask (agents e) (prepare_task s i) (context st) = Inr res"
      and "success res \<or> \<not> r" and "next s = None"
  shows "run_steps e w i r st = Some (None, (recorded s i res st)\<lparr>currentStepId := None\<rparr>)"
proof -
  from assms(1) have t: "truthy (currentStepId st)" by (simp add: at_step_def)
  have "loop_body e w i r st = advance s (recorded s i res st)"
    using assms(1-4) by (rule body_continue)
  with assms(5) have "loop_body e w i r st = Next ((recorded s i res st)\<lparr>currentStepId := None\<rparr>)"
    by (simp add: advance_def resolve_next_def)
  with t have "run_steps e w i r st = run_steps e w i r ((recorded s i res st)\<lparr>currentStepId := None\<rparr>)"
    by (rule run_steps_next)
  then show ?thesis by (simp add: run_steps_stop truthy_def)
qed

lemma run_last_step_approved:
  assumes "at_step w st s" and "should_skip s (context st) = Inr False"
      and "executeTask (agents e) (prepare_task s i) (context st) = Inr res"
      and "\<not> success res" and "r" and "approve e (approval_message s)" and "next s = None"
  shows "run_steps e w i r st = Some (None, (asked s (recorded s i res st))\<lparr>currentStepId := None\<rparr>)"
proof -
  from assms(1) have t: "truthy (currentStepId st)" by (simp add: at_step_def)
  have "loop_body e w i r st = advance s (asked s (recorded s i res st))"
    using assms(1-6) by (rule body_approved)
  with assms(7) have "loop_body e w i r st = Next ((asked s (recorded s i res st))\<lparr>currentStepId := None\<rparr>)"
    by (simp add: advance_def resolve_next_def)
  with t have "run_steps e w i r st =
      run_steps e w i r ((asked s (recorded s i res st))\<lparr>currentStepId := None\<rparr>)"
    by (rule run_steps_next)
  then show ?thesis by (simp add: run_steps_stop truthy_def)
qed

lemma body_break_cases:
  assumes "loop_body e w i r st = Break st'"
  shows "(find (\<lambda>s. Some (step_id s) = currentStepId st) (steps w) = None \<and> st' = st) \<or>
         (\<exists>step. find (\<lambda>s. Some (step_id s) = currentStepId st) (steps w) = Some step \<and>
            r \<and> \<not> approve e (approval_message step))"
proof (cases "find (\<lambda>s. Some (step_id s) = currentStepId st) (steps w)")
  case None
  with assms show ?thesis by (simp add: loop_body_def)
next
  case (Some step)
  with assms show ?thesis
    by (auto simp add: loop_body_def advance_def Let_def split: sum.splits if_splits)
qed

lemma no_denial_break:
  "approve e = askForApproval \<Longrightarrow> \<not> denial_break e w i r st"
  by (auto simp add: denial_break_def askForApproval_def split: control.splits
      dest!: body_break_cases)

lemma run_steps_completed:
  "run_steps e w i r st = Some y \<Longrightarrow> approve e = askForApproval \<Longrightarrow> fst y = None \<Longrightarrow>
   completed w (snd y)"
proof (induction rule: run_steps.raw_induct[rotated 1, consumes 1])
  case (1 f e w i r st y)
  show ?case
  proof (cases "truthy (currentStepId st)")
    case False
    with 1(2) show ?thesis by (auto simp add: completed_def)
  next
    case True
    show ?thesis
    proof (cases "loop_body e w i r st")
      case (Next st')
      with True 1(2) have "f e w i r st' = Some y" by simp
      from 1(1)[OF this 1(3,4)] show ?thesis .
    next
      case (Break st')
      from body_break_cases [OF Break] 1(3)
      have "find (\<lambda>s. Some (step_id s) = currentStepId st) (steps w) = None \<and> st' = st"
        by (auto simp add: askForApproval_def)
      with True Break 1(2) show ?thesis by (auto simp add: completed_def)
    next
      case (Throw err st')
      with True 1(2,4) show ?thesis by auto
    qed
  qed
qed

section \<open>Runs of linear workflows\<close>

lemma find_distinct_id:
  assumes "distinct (map step_id xs)" and "xs = pre @ s # rest" and "cur = Some (step_id s)"
  shows "find (\<lambda>x. Some (step_id x) = cur) xs = Some s"
proof -
  have "distinct (map step_id (pre @ s # rest)) \<Longrightarrow>
        find (\<lambda>x. step_id x = step_id s) (pre @ s # rest) = Some s"
    by (induction pre) auto
  with assms show ?thesis by simp
qed

lemma served_step:
  assumes "served_by_stub e w" and "s \<in> set (steps w)"
  shows "\<exists>res. executeTask (agents e) (prepare_task s i) ctx = Inr res \<and> success res"
proof -
  from assms obtain n a where
    na: "task_type_agent (task_type (task s)) = Some n" "agents e n = Some a" "always_succeeds a"
    by (auto simp add: served_by_stub_def)
  from na(3) obtain res where "agent_executeTask a (prepare_task s i) ctx = Inr res" "success res"
    by (auto simp add: always_succeeds_def)
  with na(1,2) show ?thesis
    by (simp add: executeTask_def getAgent_def prepare_task_def)
qed

lemma chain_run:
  assumes "steps w = pre @ suf" and "suf \<noteq> []" and "chained suf"
      and "distinct (map step_id (steps w))"
      and "[] \<notin> step_id ` set (steps w)"
      and "\<forall>s \<in> set (steps w). condition s = None"
      and "served_by_stub e w"
      and "currentStepId st = Some (step_id (hd suf))"
  shows "\<exists>st' rs. run_steps e w i r st = Some (None, st') \<and>
           trace st' = trace st @ map (\<lambda>s. EvDispatch (prepare_task s i)) suf \<and>
           results st' = results st @ rs \<and> map fst rs = map step_name suf \<and>
           (\<forall>x \<in> set rs. success (snd x))"
  using assms(1,2,3,8)
proof (induction suf arbitrary: pre st)
  case Nil
  then show ?case by simp
next
  case (Cons s suf)
  from Cons.prems(1) have mem: "s \<in> set (steps w)" by simp
  from Cons.prems(4) have cur0: "currentStepId st = Some (step_id s)" by simp
  have fnd: "find (\<lambda>x. Some (step_id x) = currentStepId st) (steps w) = Some s"
    using assms(4) Cons.prems(1) cur0 by (rule find_distinct_id)
  from mem assms(5) have "step_id s \<noteq> []" by (metis imageI)
  with cur0 have t: "truthy (currentStepId st)" by (simp add: truthy_def)
  with fnd have at: "at_step w st s" by (simp add: at_step_def)
  from mem assms(6) have sk: "should_skip s (context st) = Inr False"
    by (simp add: should_skip_def)
  from served_step [OF assms(7) mem] obtain res where
    res: "executeTask (agents e) (prepare_task s i) (context st) = Inr res" "success res"
    by blast
  let ?nxt = "case suf of [] \<Rightarrow> None | t # rest \<Rightarrow> Some (step_id t)"
  let ?st1 = "(recorded s i res st)\<lparr>currentStepId := ?nxt\<rparr>"
  have rn: "resolve_next s (context (recorded s i res st)) = Inr ?nxt"
    using Cons.prems(3) by (cases suf) (simp_all add: resolve_next_def)
  have "loop_body e w i r st = advance s (recorded s i res st)"
    using at sk res(1) by (rule body_continue) (simp add: res(2))
  with rn have body: "loop_body e w i r st = Next ?st1" by (simp add: advance_next)
  with t have step: "run_steps e w i r st = run_steps e w i r ?st1" by (rule run_steps_next)
  have tr1: "trace ?st1 = trace st @ [EvDispatch (prepare_task s i)]"
    and rs1: "results ?st1 = results st @ [(step_name s, res)]"
    by (simp_all add: recorded_def dispatched_def entered_def)
  show ?case
  proof (cases suf)
    case Nil
    then have "\<not> truthy (currentStepId ?st1)" by (simp add: truthy_def)
    then have "run_steps e w i r ?st1 = Some (None, ?st1)" by (rule run_steps_stop)
    with step Nil tr1 rs1 res(2) show ?thesis
      by (intro exI [of _ ?st1] exI [of _ "[(step_name s, res)]"]) simp
  next
    case (Cons t rest)
    with Cons.prems(3) have ch: "chained suf" by simp
    from Cons have cur: "currentStepId ?st1 = Some (step_id (hd suf))" by simp
    from Cons.prems(1) have split: "steps w = (pre @ [s]) @ suf" by simp
    from Cons have ne: "suf \<noteq> []" by simp
    from Cons.IH [OF split ne ch cur] obtain st' rs where
      ih: "run_steps e w i r ?st1 = Some (None, st')"
          "trace st' = trace ?st1 @ map (\<lambda>s. EvDispatch (prepare_task s i)) suf"
          "results st' = results ?st1 @ rs" "map fst rs = map step_name suf"
          "\<forall>x \<in> set rs. success (snd x)"
      by blast
    with step tr1 rs1 res(2) show ?thesis
      by (intro exI [of _ st'] exI [of _ "(step_name s, res) # rs"]) simp
  qed
qed

section \<open>Termination of the loop\<close>

lemma finite_next_edges: "finite (next_edges w)"
proof (rule finite_subset)
  show "next_edges w \<subseteq> (step_id ` set (steps w)) \<times> (step_id ` set (steps w))"
    by (auto simp add: next_edges_def)
  show "finite ((step_id ` set (steps w)) \<times> (step_id ` set (steps w)))" by simp
qed

lemma resolve_next_target:
  "resolve_next s ctx = Inr (Some y) \<Longrightarrow> y \<in> next_targets s"
  by (auto simp add: resolve_next_def next_targets_def
      split: option.splits next_selector.splits sum.splits)

lemma body_next_edge:
  assumes "loop_body e w i r st = Next st'" and "currentStepId st = Some x"
      and "currentStepId st' = Some y" and "y \<in> step_id ` set (steps w)"
  shows "(x, y) \<in> next_edges w"
proof -
  from assms(1) obtain s where
    s: "find (\<lambda>s. Some (step_id s) = currentStepId st) (steps w) = Some s"
    by (auto simp add: loop_body_def split: option.splits)
  then have mem: "s \<in> set (steps w)" and sid: "step_id s = x"
    using assms(2) by (auto simp add: find_Some_iff in_set_conv_nth)
  from assms(1) s have "\<exists>ctx. resolve_next s ctx = Inr (currentStepId st')"
    by (auto simp add: loop_body_def advance_def Let_def split: if_splits sum.splits)
  with assms(3) obtain ctx where "resolve_next s ctx = Inr (Some y)" by auto
  then have "y \<in> next_targets s" by (rule resolve_next_target)
  with mem sid assms(4) show ?thesis by (auto simp add: next_edges_def)
qed

lemma find_no_step:
  "cur = Some y \<Longrightarrow> y \<notin> step_id ` set (steps w) \<Longrightarrow>
   find (\<lambda>s. Some (step_id s) = cur) (steps w) = None"
  by (auto simp add: find_None_iff)

lemma acyclic_run_steps:
  assumes "acyclic (next_edges w)"
  shows "\<exists>res. run_steps e w i r st = Some res"
proof -
  from finite_next_edges assms have wf: "wf ((next_edges w)\<inverse>)"
    by (rule finite_acyclic_wf_converse)
  have at: "\<forall>st :: run_state. currentStepId st = Some x \<longrightarrow>
      (\<exists>res. run_steps e w i r st = Some res)" for x
    using wf
  proof (induction x rule: wf_induct_rule)
    case (less x)
    show ?case
    proof (intro allI impI)
      fix st :: run_state
      assume cur: "currentStepId st = Some x"
      show "\<exists>res. run_steps e w i r st = Some res"
      proof (cases "truthy (currentStepId st)")
        case False
        then show ?thesis by (simp add: run_steps_stop)
      next
        case True
        show ?thesis
        proof (cases "loop_body e w i r st")
          case (Break st')
          with True show ?thesis by (simp add: run_steps_break)
        next
          case (Throw err st')
          with True show ?thesis by (simp add: run_steps_throw)
        next
          case (Next st')
          with True have eq: "run_steps e w i r st = run_steps e w i r st'"
            by (rule run_steps_next)
          show ?thesis
          proof (cases "currentStepId st'")
            case None
            then have "\<not> truthy (currentStepId st')" by (simp add: truthy_def)
            with eq show ?thesis by (simp add: run_steps_stop)
          next
            case (Some y)
            show ?thesis
            proof (cases "y \<in> step_id ` set (steps w)")
              case False
              with Some have "find (\<lambda>s. Some (step_id s) = currentStepId st') (steps w) = None"
                by (rule find_no_step)
              with eq show ?thesis by (simp add: run_steps_unknown)
            next
              case True
              with Next cur Some have "(x, y) \<in> next_edges w" by (rule body_next_edge)
              then have "(y, x) \<in> (next_edges w)\<inverse>" by simp
              from less.IH [OF this] Some eq show ?thesis by simp
            qed
          qed
        qed
      qed
    qed
  qed
  show ?thesis
  proof (cases "currentStepId st")
    case None
    then have "\<not> truthy (currentStepId st)" by (simp add: truthy_def)
    then show ?thesis by (simp add: run_steps_stop)
  next
    case (Some x)
    with at show ?thesis by blast
  qed
qed

lemma self_loop_body:
  assumes "currentStepId st = Some ''s1''"
  shows "\<exists>st'. loop_body (mk_env [''testing'' \<mapsto> stub ok_result] True) self_loop i r st = Next st' \<and>
           currentStepId st' = Some ''s1''"
proof -
  let ?e = "mk_env [''testing'' \<mapsto> stub ok_result] True"
  let ?s = "mk_step ''s1'' ''testing'' (Some (Static ''s1''))"
  from assms have at: "at_step self_loop st ?s"
    by (simp add: at_step_def truthy_def self_loop_def mk_step_def)
  have sk: "should_skip ?s (context st) = Inr False" by (simp add: should_skip_def mk_step_def)
  have ex: "executeTask (agents ?e) (prepare_task ?s i) (context st) = Inr ok_result"
    by (simp add: executeTask_def task_type_agent_def getAgent_def prepare_task_def mk_step_def
        mk_task_def mk_env_def stub_def)
  have "loop_body ?e self_loop i r st = advance ?s (recorded ?s i ok_result st)"
    using at sk ex by (rule body_continue) (simp add: ok_result_def)
  then show ?thesis by (simp add: advance_def resolve_next_def mk_step_def)
qed

lemma self_loop_never_ends:
  "run_steps e w i r st = Some y \<Longrightarrow>
   e = mk_env [''testing'' \<mapsto> stub ok_result] True \<Longrightarrow> w = self_loop \<Longrightarrow>
   currentStepId st \<noteq> Some ''s1''"
proof (induction rule: run_steps.raw_induct[rotated 1, consumes 1])
  case (1 f e w i r st y)
  show ?case
  proof
    assume cur: "currentStepId st = Some ''s1''"
    then have t: "truthy (currentStepId st)" by (simp add: truthy_def)
    from self_loop_body [OF cur, of i r] obtain st' where
      "loop_body (mk_env [''testing'' \<mapsto> stub ok_result] True) self_loop i r st = Next st'"
      and "currentStepId st' = Some ''s1''" by blast
    then have st': "loop_body e w i r st = Next st'" "currentStepId st' = Some ''s1''"
      by (simp_all only: 1(3) 1(4))
    with t 1(2) have "f e w i r st' = Some y" by simp
    from 1(1) [OF this 1(3,4)] st'(2) show False by simp
  qed
qed

lemma self_loop_diverges:
  "currentStepId st = Some ''s1'' \<Longrightarrow>
   run_steps (mk_env [''testing'' \<mapsto> stub ok_result] True) self_loop i r st = None"
  using self_loop_never_ends [of "mk_env [''testing'' \<mapsto> stub ok_result] True" self_loop i r st]
  by (cases "run_steps (mk_env [''testing'' \<mapsto> stub ok_result] True) self_loop i r st") auto

lemma acyclic_runWorkflow:
  assumes "acyclic (next_edges w)" and "getWorkflow ws wid = Inr w"
  shows "\<exists>out. runWorkflow e ws wid i opts = Some out"
proof -
  let ?wo = "set_default_options e w opts"
  show ?thesis
  proof (cases "analyzeCodebase e (codebaseDir ?wo)")
    case (Inl err)
    with assms(2) show ?thesis by (simp add: runWorkflow_def Let_def)
  next
    case (Inr cb)
    show ?thesis
    proof (cases "steps w")
      case Nil
      with assms(2) Inr show ?thesis by (simp add: runWorkflow_def Let_def)
    next
      case (Cons s rest)
      let ?st0 = "initial_state ?wo cb i s [Log (''Running workflow: '' @ wf_name w)]"
      from assms(1) obtain x st where "run_steps e w i (requireApproval ?wo) ?st0 = Some (x, st)"
        using acyclic_run_steps [of w e i "requireApproval ?wo" ?st0] by auto
      with assms(2) Inr Cons show ?thesis
        by (cases x) (simp_all add: runWorkflow_def Let_def)
    qed
  qed
qed

lemma self_loop_edges:
  "next_edges self_loop = {(''s1'', ''s1'')}"
  by (auto simp add: next_edges_def next_targets_def self_loop_def mk_step_def)

lemma self_loop_runWorkflow:
  "runWorkflow (mk_env [''testing'' \<mapsto> stub ok_result] True) [''l'' \<mapsto> self_loop] ''l'' i opts = None"
proof -
  let ?e = "mk_env [''testing'' \<mapsto> stub ok_result] True"
  have g: "getWorkflow [''l'' \<mapsto> self_loop] ''l'' = Inr self_loop"
    by (simp add: getWorkflow_def)
  have a: "analyzeCodebase ?e d = Inr (ex_codebase d)" for d
    by (simp add: mk_env_def ex_codebase_def)
  have s: "steps self_loop = [mk_step ''s1'' ''testing'' (Some (Static ''s1''))]"
    by (simp add: self_loop_def)
  have "run_steps ?e self_loop i r
          (initial_state wo cb i (mk_step ''s1'' ''testing'' (Some (Static ''s1''))) con) = None"
    for r wo cb con
    by (rule self_loop_diverges) (simp add: initial_state_def mk_step_def)
  then show ?thesis
    by (simp add: runWorkflow_def g a s Let_def)
qed

section \<open>The definition store\<close>

text \<open>
  C4, as the claim states it, fails: \<^verbatim>\<open>registerWorkflow\<close> validates nothing. A
  workflow whose id, name and description are empty and which has no steps is
  registered, and \<^verbatim>\<open>getWorkflow\<close> returns it.
\<close>

theorem registerWorkflow_unvalidated_counterexample:
  "getWorkflow (registerWorkflow Map.empty empty_workflow) [] = Inr empty_workflow"
  by (simp add: getWorkflow_def registerWorkflow_def empty_workflow_def)

text \<open>
  C4, amended: \<^verbatim>\<open>registerWorkflow\<close> inserts every workflow under its id, valid or
  not. The validation is in \<^verbatim>\<open>createWorkflow\<close>: with an empty id, name or
  description or an empty step list it throws \<^verbatim>\<open>Error("Invalid workflow definition")\<close>
  and leaves the store as it was; otherwise the store holds the workflow under its id
  afterwards, replacing what was there.
\<close>

theorem register_and_create:
  "getWorkflow (registerWorkflow ws w) (wf_id w) = Inr w \<and>
   (invalid_definition w \<longrightarrow>
      fst (createWorkflow e ws w) = ws \<and>
      snd (snd (createWorkflow e ws w)) = Inl (Error ''Invalid workflow definition'')) \<and>
   (\<not> invalid_definition w \<longrightarrow>
      fst (createWorkflow e ws w) = ws(wf_id w \<mapsto> w))"
  by (simp add: getWorkflow_def registerWorkflow_def createWorkflow_def Let_def split: sum.splits)

theorem register_and_create_witness:
  "snd (snd (createWorkflow (mk_env Map.empty True) Map.empty empty_workflow)) =
     Inl (Error ''Invalid workflow definition'') \<and>
   fst (createWorkflow (mk_env Map.empty True) Map.empty empty_workflow) ''w'' = None \<and>
   fst (createWorkflow (mk_env Map.empty True) Map.empty two_steps) ''w'' = Some two_steps"
proof -
  have bad: "invalid_definition empty_workflow"
    by (simp add: invalid_definition_def empty_workflow_def)
  have good: "\<not> invalid_definition two_steps"
    by (simp add: invalid_definition_def two_steps_def)
  have "wf_id two_steps = ''w''" by (simp add: two_steps_def)
  with bad good
    register_and_create [of Map.empty empty_workflow "mk_env Map.empty True"]
    register_and_create [of Map.empty two_steps "mk_env Map.empty True"]
  show ?thesis by simp
qed

text \<open>
  C9: for every workflow that passes the validation of \<^verbatim>\<open>createWorkflow\<close>,
  \<^verbatim>\<open>getWorkflow\<close> on its id in the store \<^verbatim>\<open>createWorkflow\<close> leaves returns a
  workflow with the same id, name, description and number of steps. This holds
  whether or not writing the definition file succeeds, since the workflow is registered
  before the file is written.
\<close>

theorem create_then_get:
  assumes "\<not> invalid_definition w"
  shows "\<exists>w'. getWorkflow (fst (createWorkflow e ws w)) (wf_id w) = Inr w' \<and>
     wf_id w' = wf_id w \<and> wf_name w' = wf_name w \<and> wf_description w' = wf_description w \<and>
     length (steps w') = length (steps w)"
  using assms
  by (simp add: getWorkflow_def registerWorkflow_def createWorkflow_def Let_def split: sum.splits)

theorem create_then_get_witness:
  "\<exists>w'. getWorkflow (fst (createWorkflow (mk_env Map.empty True) Map.empty two_steps)) ''w'' = Inr w' \<and>
     wf_id w' = ''w'' \<and> wf_name w' = ''W'' \<and> wf_description w' = ''two steps'' \<and>
     length (steps w') = 2"
proof -
  have good: "\<not> invalid_definition two_steps"
    by (simp add: invalid_definition_def two_steps_def)
  from create_then_get [OF good, of "mk_env Map.empty True" Map.empty]
  show ?thesis by (simp add: two_steps_def numeral_2_eq_2)
qed

section \<open>Dispatch to a worker that is not there\<close>

text \<open>
  C1, as the claim states it, fails: the dispatcher returns no result for a task whose
  worker is missing, it throws. With an empty registry a task of type
  \<^verbatim>\<open>testing\<close> ends in \<^verbatim>\<open>Error("Agent testing not found")\<close>, a task of an unknown
  type in \<^verbatim>\<open>Error("Unknown task type: deploy")\<close>, and \<^verbatim>\<open>runWorkflow\<close> rethrows
  the error instead of returning a list with a failed step.
\<close>

theorem unavailable_worker_counterexample:
  "executeTask Map.empty (mk_task ''a'' ''testing'')
      (context (ex_start (mk_env Map.empty True) two_steps None)) =
     Inl (Error ''Agent testing not found'') \<and>
   executeTask [''testing'' \<mapsto> stub ok_result] (mk_task ''a'' ''deploy'')
      (context (ex_start (mk_env Map.empty True) two_steps None)) =
     Inl (Error ''Unknown task type: deploy'') \<and>
   map_option returned (runWorkflow (mk_env Map.empty True) [''w'' \<mapsto> two_steps] ''w'' None None) =
     Some (Inl (Error ''Agent testing not found''))"
  by (simp add: run_defs ex_defs)

text \<open>
  C1, amended: for every task whose type falls to the \<^verbatim>\<open>default\<close> case or names an
  agent that is not registered, \<^verbatim>\<open>executeTask\<close> throws an \<^verbatim>\<open>Error\<close> (unknown task
  type, or agent not found) and calls no worker. When the loop of \<^verbatim>\<open>runWorkflow\<close>
  comes to a step with such a task and does not skip it (its condition is absent or
  returns true), the call logs the error and
  rethrows it: it returns no result list, and it makes no call after the dispatch (no
  approval question, no commit).
\<close>

theorem unavailable_worker_throws:
  assumes "run_at e ws wid input opts w wo st"
      and "at_step w st step"
      and "should_skip step (context st) = Inr False"
      and "worker_unavailable (agents e) (task step)"
  shows "(\<forall>t ctx. worker_unavailable (agents e) t \<longrightarrow>
            executeTask (agents e) t ctx = Inl (Error (unavailable_message t))) \<and>
         (\<exists>out. runWorkflow e ws wid input opts = Some out \<and>
            returned out = Inl (Error (unavailable_message (task step))) \<and>
            effects out = trace st @ [EvDispatch (prepare_task step input)] \<and>
            ConsoleError (''Error running workflow '' @ wid @ '':'')
              (Error (unavailable_message (task step))) \<in> set (console_out out))"
proof -
  let ?err = "Error (unavailable_message (task step))"
  from assms(4) have "executeTask (agents e) (prepare_task step input) (context st) = Inl ?err"
    using executeTask_unavailable [of "agents e" "prepare_task step input" "context st"]
    by (simp add: worker_unavailable_prepare)
  with assms(2,3)
  have "loop_body e w input (requireApproval wo) st = Throw ?err (dispatched step input st)"
    by (rule body_throw)
  moreover from assms(2) have "truthy (currentStepId st)" by (simp add: at_step_def)
  ultimately
  have "run_steps e w input (requireApproval wo) st = Some (Some ?err, dispatched step input st)"
    by (simp add: run_steps_throw)
  with assms(1)
  have "runWorkflow e ws wid input opts =
          Some (rethrow wid ?err (trace (dispatched step input st)) (console (dispatched step input st)))"
    by (rule run_at_rethrow)
  then show ?thesis
    by (simp add: rethrow_def dispatched_def entered_def executeTask_unavailable)
qed

theorem unavailable_worker_throws_witness:
  "\<exists>out. runWorkflow (mk_env Map.empty True) [''w'' \<mapsto> two_steps] ''w'' None
            (mk_options False False) = Some out \<and>
     returned out = Inl (Error ''Agent testing not found'') \<and>
     effects out = [EvDispatch (mk_task ''a'' ''testing'')]"
proof -
  let ?e = "mk_env Map.empty True"
  let ?o = "mk_options False False"
  let ?s = "mk_step ''a'' ''testing'' (Some (Static ''b''))"
  have ra: "run_at ?e [wf_id two_steps \<mapsto> two_steps] (wf_id two_steps) None ?o two_steps
      (set_default_options ?e two_steps ?o) (ex_start ?e two_steps ?o)"
    by (rule ex_run_at) (simp add: two_steps_def)
  have at: "at_step two_steps (ex_start ?e two_steps ?o) ?s"
    by (rule ex_at_first) (simp_all add: two_steps_def mk_step_def)
  have sk: "should_skip ?s (context (ex_start ?e two_steps ?o)) = Inr False"
    by (simp add: should_skip_def mk_step_def)
  have un: "worker_unavailable (agents ?e) (task ?s)"
    by (simp add: worker_unavailable_def mk_env_def mk_step_def mk_task_def task_type_agent_def)
  have msg: "unavailable_message (task ?s) = ''Agent testing not found''"
    by (simp add: unavailable_message_def mk_step_def mk_task_def task_type_agent_def)
  have t: "prepare_task ?s None = mk_task ''a'' ''testing''"
    by (simp add: prepare_task_def spread_def mk_step_def mk_task_def)
  have i: "wf_id two_steps = ''w''" by (simp add: two_steps_def)
  from unavailable_worker_throws [OF ra at sk un] show ?thesis
    by (simp add: msg t i ex_start_fields) blast
qed

section \<open>The approval gate\<close>

text \<open>
  C2: in a run with \<^verbatim>\<open>requireApproval\<close>, when the run comes to a step that is executed
  (no condition, or a condition that returns true) and whose result has
  \<^verbatim>\<open>success = false\<close>, the approval question is asked right after the dispatch. If the
  answer is no, \<^verbatim>\<open>runWorkflow\<close> returns the results collected before the step followed
  by the failed step's, and the only calls after the question are those of the commit
  block. If the answer is yes, the run goes on to resolve \<^verbatim>\<open>next\<close> on the updated
  context: when the step has no \<^verbatim>\<open>next\<close>, a static one, or a computed one that returns
  an id, the loop of \<^verbatim>\<open>runWorkflow\<close> continues from the state whose current step is that
  id, and whatever the run calls next, it is not a second approval question (the question
  was asked exactly once before any further dispatch); when the computed \<^verbatim>\<open>next\<close>
  throws, the run is rethrown with the dispatch and the question as its last calls.
\<close>

theorem approval_gate:
  assumes "run_at e ws wid input opts w wo st"
      and "requireApproval wo"
      and "at_step w st step"
      and "condition step = None \<or> (\<exists>c. condition step = Some c \<and> c (context st) = Inr True)"
      and "executeTask (agents e) (prepare_task step input) (context st) = Inr res"
      and "\<not> success res"
      and "ctx' = (context st)\<lparr>ctx_results := AList.update (step_id step) res (ctx_results (context st))\<rparr>"
  shows "(\<not> approve e (approval_message step) \<longrightarrow>
           (\<exists>out. runWorkflow e ws wid input opts = Some out \<and>
              returned out = Inr (results st @ [(step_name step, res)]) \<and>
              effects out =
                trace st @ [EvDispatch (prepare_task step input),
                            EvAskApproval (approval_message step)] @ commit_events e wo)) \<and>
         (approve e (approval_message step) \<longrightarrow>
           (\<forall>nxt. (next step = None \<and> nxt = None \<or>
                   (\<exists>i. next step = Some (Static i) \<and> nxt = Some i) \<or>
                   (\<exists>f i. next step = Some (Computed f) \<and> f ctx' = Inr i \<and> nxt = Some i)) \<longrightarrow>
              (\<exists>st'. continues_at e ws wid input opts w wo st st' \<and>
                 currentStepId st' = nxt \<and> context st' = ctx' \<and>
                 trace st' = trace st @ [EvDispatch (prepare_task step input),
                                         EvAskApproval (approval_message step)] \<and>
                 results st' = results st @ [(step_name step, res)] \<and>
                 (\<forall>out. runWorkflow e ws wid input opts = Some out \<longrightarrow>
                    (\<exists>later. effects out = trace st' @ later \<and>
                       (case later of EvAskApproval m # others \<Rightarrow> False | _ \<Rightarrow> True))))) \<and>
           (\<forall>f err. next step = Some (Computed f) \<and> f ctx' = Inl err \<longrightarrow>
              (\<exists>out. runWorkflow e ws wid input opts = Some out \<and>
                 returned out = Inl err \<and>
                 effects out = trace st @ [EvDispatch (prepare_task step input),
                                           EvAskApproval (approval_message step)])))"
proof (intro conjI impI allI)
  from assms(4) have skip: "should_skip step (context st) = Inr False"
    by (auto simp add: should_skip_def)
  from assms(3) have t: "truthy (currentStepId st)" by (simp add: at_step_def)
  let ?ask = "asked step (recorded step input res st)"
  have ctx: "context ?ask = ctx'"
    by (simp add: asked_def recorded_def assms(7))
  {
    assume deny: "\<not> approve e (approval_message step)"
    let ?st' = "?ask\<lparr>console := console ?ask @ [Log ''Workflow execution stopped by user.'']\<rparr>"
    have "loop_body e w input (requireApproval wo) st = Break ?st'"
      using assms(3) skip assms(5,6,2) deny by (rule body_denied)
    with t have "run_steps e w input (requireApproval wo) st = Some (None, ?st')"
      by (rule run_steps_break)
    with assms(1) have "runWorkflow e ws wid input opts = Some (finish_run e wo w ?st')"
      by (rule run_at_finish)
    then show "\<exists>out. runWorkflow e ws wid input opts = Some out \<and>
              returned out = Inr (results st @ [(step_name step, res)]) \<and>
              effects out =
                trace st @ [EvDispatch (prepare_task step input),
                            EvAskApproval (approval_message step)] @ commit_events e wo"
      by (simp add: returned_finish_run effects_finish_run asked_def recorded_def
          dispatched_def entered_def)
  }
  {
    fix nxt
    assume ok: "approve e (approval_message step)"
    assume "next step = None \<and> nxt = None \<or>
            (\<exists>i. next step = Some (Static i) \<and> nxt = Some i) \<or>
            (\<exists>f i. next step = Some (Computed f) \<and> f ctx' = Inr i \<and> nxt = Some i)"
    then have res: "resolve_next step (context ?ask) = Inr nxt"
      by (auto simp add: resolve_next_def ctx)
    let ?st' = "?ask\<lparr>currentStepId := nxt\<rparr>"
    have "loop_body e w input (requireApproval wo) st = advance step ?ask"
      using assms(3) skip assms(5,6,2) ok by (rule body_approved)
    with res have body: "loop_body e w input (requireApproval wo) st = Next ?st'"
      by (simp add: advance_next)
    with assms(1) t have ca: "continues_at e ws wid input opts w wo st ?st'"
      by (rule continues_atI)
    then have ra: "run_at e ws wid input opts w wo ?st'" by (simp add: continues_at_def)
    have later: "\<exists>later. effects out = trace ?st' @ later \<and>
                    (case later of EvAskApproval m # others \<Rightarrow> False | _ \<Rightarrow> True)"
      if out: "runWorkflow e ws wid input opts = Some out" for out
    proof -
      from run_at_outcome [OF ra out] obtain evs where
        evs: "step_events (requireApproval wo) evs"
          "effects out = trace ?st' @ evs @ commit_events e wo \<or> effects out = trace ?st' @ evs"
        by blast
      from evs(2) show ?thesis
      proof
        assume "effects out = trace ?st' @ evs @ commit_events e wo"
        with step_events_commit_head [OF evs(1), of e wo] show ?thesis by blast
      next
        assume "effects out = trace ?st' @ evs"
        with step_events_head [OF evs(1)] show ?thesis by blast
      qed
    qed
    have fields:
      "currentStepId ?st' = nxt" "context ?st' = ctx'"
      "trace ?st' = trace st @ [EvDispatch (prepare_task step input),
                                      EvAskApproval (approval_message step)]"
      "results ?st' = results st @ [(step_name step, res)]"
      by (simp_all add: asked_def recorded_def dispatched_def entered_def assms(7))
    from ca fields later
    show "\<exists>st'. continues_at e ws wid input opts w wo st st' \<and>
                 currentStepId st' = nxt \<and> context st' = ctx' \<and>
                 trace st' = trace st @ [EvDispatch (prepare_task step input),
                                         EvAskApproval (approval_message step)] \<and>
                 results st' = results st @ [(step_name step, res)] \<and>
                 (\<forall>out. runWorkflow e ws wid input opts = Some out \<longrightarrow>
                    (\<exists>later. effects out = trace st' @ later \<and>
                       (case later of EvAskApproval m # others \<Rightarrow> False | _ \<Rightarrow> True)))"
      by (intro exI [of _ ?st']) blast
  }
  {
    fix f err
    assume ok: "approve e (approval_message step)"
    assume "next step = Some (Computed f) \<and> f ctx' = Inl err"
    then have res: "resolve_next step (context ?ask) = Inl err"
      by (simp add: resolve_next_def ctx)
    have "loop_body e w input (requireApproval wo) st = advance step ?ask"
      using assms(3) skip assms(5,6,2) ok by (rule body_approved)
    with res have "loop_body e w input (requireApproval wo) st = Throw err ?ask"
      by (simp add: advance_throw)
    with assms(1) t have "runWorkflow e ws wid input opts =
        Some (rethrow wid err (trace ?ask) (console ?ask))"
      by (rule thrown_outcome)
    then show "\<exists>out. runWorkflow e ws wid input opts = Some out \<and>
                 returned out = Inl err \<and>
                 effects out = trace st @ [EvDispatch (prepare_task step input),
                                           EvAskApproval (approval_message step)]"
      by (simp add: rethrow_def asked_def recorded_def dispatched_def entered_def)
  }
qed

theorem approval_gate_witness:
  "(\<exists>out. runWorkflow (mk_env [''testing'' \<mapsto> stub failed_result] False) [''w'' \<mapsto> two_steps]
             ''w'' None (mk_options False True) = Some out \<and>
      returned out = Inr [(''a'', failed_result)] \<and>
      effects out = [EvDispatch (mk_task ''a'' ''testing''),
                     EvAskApproval ''Step a failed. Do you want to continue the workflow?'']) \<and>
   (\<exists>out. runWorkflow (mk_env [''testing'' \<mapsto> stub failed_result] True) [''w'' \<mapsto> two_steps]
             ''w'' None (mk_options False True) = Some out \<and>
      returned out = Inr [(''a'', failed_result), (''b'', failed_result)] \<and>
      effects out = [EvDispatch (mk_task ''a'' ''testing''),
                     EvAskApproval ''Step a failed. Do you want to continue the workflow?'',
                     EvDispatch (mk_task ''b'' ''testing''),
                     EvAskApproval ''Step b failed. Do you want to continue the workflow?''])"
proof -
  let ?o = "mk_options False True"
  let ?a = "mk_step ''a'' ''testing'' (Some (Static ''b''))"
  let ?b = "mk_step ''b'' ''testing'' None"
  let ?w = two_steps
  have ns: "\<not> success failed_result" by (simp add: failed_result_def)
  have w: "wf_id ?w = ''w''" "steps ?w = [?a, ?b]" by (simp_all add: two_steps_def)
  {
    fix answer
    let ?e = "mk_env [''testing'' \<mapsto> stub failed_result] answer"
    have ra: "run_at ?e [wf_id ?w \<mapsto> ?w] (wf_id ?w) None ?o ?w
        (set_default_options ?e ?w ?o) (ex_start ?e ?w ?o)"
      by (rule ex_run_at) (simp add: w)
    have rq: "requireApproval (set_default_options ?e ?w ?o)" by (simp add: ex_wo)
    have at: "at_step ?w (ex_start ?e ?w ?o) ?a"
      by (rule ex_at_first) (simp_all add: w mk_step_def)
    have c: "condition ?a = None \<or>
        (\<exists>c. condition ?a = Some c \<and> c (context (ex_start ?e ?w ?o)) = Inr True)"
      by (simp add: mk_step_def)
    have ex: "executeTask (agents ?e) (prepare_task ?a None) (context (ex_start ?e ?w ?o)) =
        Inr failed_result"
      by (simp add: ex_step_facts)
    note approval_gate [OF ra rq at c ex ns refl]
  }
  note gate = this
  from gate [of False] have deny: "\<exists>out. runWorkflow (mk_env [''testing'' \<mapsto> stub failed_result] False)
        [''w'' \<mapsto> two_steps] ''w'' None ?o = Some out \<and>
      returned out = Inr [(''a'', failed_result)] \<and>
      effects out = [EvDispatch (mk_task ''a'' ''testing''),
                     EvAskApproval ''Step a failed. Do you want to continue the workflow?'']"
    by (simp add: ex_step_facts w ex_start_fields ex_wo commit_events_def)
  have ok: "\<exists>out. runWorkflow (mk_env [''testing'' \<mapsto> stub failed_result] True)
        [''w'' \<mapsto> two_steps] ''w'' None ?o = Some out \<and>
      returned out = Inr [(''a'', failed_result), (''b'', failed_result)] \<and>
      effects out = [EvDispatch (mk_task ''a'' ''testing''),
                     EvAskApproval ''Step a failed. Do you want to continue the workflow?'',
                     EvDispatch (mk_task ''b'' ''testing''),
                     EvAskApproval ''Step b failed. Do you want to continue the workflow?'']"
  proof -
    let ?e = "mk_env [''testing'' \<mapsto> stub failed_result] True"
    let ?wo = "set_default_options ?e ?w ?o"
    let ?st = "ex_start ?e ?w ?o"
    let ?ctx = "(context ?st)\<lparr>ctx_results :=
        AList.update (step_id ?a) failed_result (ctx_results (context ?st))\<rparr>"
    have yes: "approve ?e (approval_message ?a)" by (simp add: ex_step_facts)
    have nx: "next ?a = None \<and> Some ''b'' = None \<or>
        (\<exists>i. next ?a = Some (Static i) \<and> Some ''b'' = Some i) \<or>
        (\<exists>f i. next ?a = Some (Computed f) \<and> f ?ctx = Inr i \<and> Some ''b'' = Some i)"
      by (simp add: mk_step_def)
    from gate [of True] yes nx obtain st' where
      st': "continues_at ?e [wf_id ?w \<mapsto> ?w] (wf_id ?w) None ?o ?w ?wo ?st st'"
        "currentStepId st' = Some ''b''"
        "trace st' = trace ?st @ [EvDispatch (prepare_task ?a None),
                                  EvAskApproval (approval_message ?a)]"
        "results st' = results ?st @ [(step_name ?a, failed_result)]"
      by blast
    have atb: "at_step ?w st' ?b"
      by (simp add: at_step_def st'(2) truthy_def w mk_step_def)
    have "run_steps ?e ?w None (requireApproval ?wo) st' =
        Some (None, (asked ?b (recorded ?b None failed_result st'))\<lparr>currentStepId := None\<rparr>)"
    proof (rule run_last_step_approved [OF atb])
      show "should_skip ?b (context st') = Inr False" by (simp add: ex_step_facts)
      show "executeTask (agents ?e) (prepare_task ?b None) (context st') = Inr failed_result"
        by (simp add: ex_step_facts)
      show "\<not> success failed_result" by (rule ns)
      show "requireApproval ?wo" by (simp add: ex_wo)
      show "approve ?e (approval_message ?b)" by (simp add: ex_step_facts)
      show "next ?b = None" by (simp add: mk_step_def)
    qed
    with st'(1) have run: "runWorkflow ?e [wf_id ?w \<mapsto> ?w] (wf_id ?w) None ?o =
        Some (finish_run ?e ?wo ?w
          ((asked ?b (recorded ?b None failed_result st'))\<lparr>currentStepId := None\<rparr>))"
      by (simp add: continues_at_def run_outcome_of_def)
    have mb: "approval_message ?b = ''Step b failed. Do you want to continue the workflow?''"
      by (simp add: approval_message_def mk_step_def)
    from run show ?thesis
      by (simp add: w returned_finish_run effects_finish_run asked_def recorded_def dispatched_def
          entered_def st'(3,4) ex_start_fields ex_step_facts commit_events_def ex_wo mb)
  qed
  from deny ok show ?thesis by blast
qed

section \<open>The commit block\<close>

text \<open>
  C3: the approval question of the source is the placeholder \<^verbatim>\<open>askForApproval\<close>, which
  always answers yes. In every run with \<^verbatim>\<open>autoCommit\<close> that asks it, no pass of the loop
  leaves it by the \<^verbatim>\<open>break\<close> of a refused approval: the run is never aborted. When the
  loop ends without an exception, it has ended because there is no next step (the state
  Completed); \<^verbatim>\<open>gitCommit\<close> is then called once, after the calls of the loop, followed
  by \<^verbatim>\<open>gitPush\<close> when the commit did not throw, and the loop itself calls neither; a
  failure of either is written to the console and the collected results are returned all
  the same. When an exception leaves the loop, neither is called and the exception is
  rethrown.
\<close>

theorem commit_hook_on_completion:
  assumes "run_started e ws wid input opts w wo st0"
      and "autoCommit wo"
      and "approve e = askForApproval"
  shows "(\<forall>st. reachable e w input (requireApproval wo) st0 st \<longrightarrow>
            \<not> denial_break e w input (requireApproval wo) st) \<and>
         (\<forall>x st. run_steps e w input (requireApproval wo) st0 = Some (x, st) \<longrightarrow>
            (\<exists>out. runWorkflow e ws wid input opts = Some out \<and>
               (case x of
                  None \<Rightarrow>
                    completed w st \<and>
                    returned out = Inr (results st) \<and>
                    effects out = trace st @
                      EvGitCommit (commitMessage wo) #
                        (case gitCommit e (commitMessage wo) of
                           Inl err \<Rightarrow> [] | Inr u \<Rightarrow> [EvGitPush]) \<and>
                    hook_events (trace st) = [] \<and>
                    (\<forall>err. gitCommit e (commitMessage wo) = Inl err \<or>
                            (gitCommit e (commitMessage wo) = Inr () \<and> gitPush e = Inl err) \<longrightarrow>
                       ConsoleError ''Failed to commit changes:'' err \<in> set (console_out out))
                | Some err \<Rightarrow>
                    returned out = Inl err \<and> hook_events (effects out) = [])))"
proof (intro conjI allI impI)
  fix st
  from assms(3) show "\<not> denial_break e w input (requireApproval wo) st"
    by (rule no_denial_break)
next
  fix x st
  assume fin: "run_steps e w input (requireApproval wo) st0 = Some (x, st)"
  from run_steps_trace [OF fin] run_started_initial [OF assms(1)]
  have "step_events (requireApproval wo) (trace st)" by auto
  then have h: "hook_events (trace st) = []" by (rule step_events_hooks)
  show "\<exists>out. runWorkflow e ws wid input opts = Some out \<and>
               (case x of
                  None \<Rightarrow>
                    completed w st \<and>
                    returned out = Inr (results st) \<and>
                    effects out = trace st @
                      EvGitCommit (commitMessage wo) #
                        (case gitCommit e (commitMessage wo) of
                           Inl err \<Rightarrow> [] | Inr u \<Rightarrow> [EvGitPush]) \<and>
                    hook_events (trace st) = [] \<and>
                    (\<forall>err. gitCommit e (commitMessage wo) = Inl err \<or>
                            (gitCommit e (commitMessage wo) = Inr () \<and> gitPush e = Inl err) \<longrightarrow>
                       ConsoleError ''Failed to commit changes:'' err \<in> set (console_out out))
                | Some err \<Rightarrow>
                    returned out = Inl err \<and> hook_events (effects out) = [])"
  proof (cases x)
    case None
    with fin assms(1) have run: "runWorkflow e ws wid input opts = Some (finish_run e wo w st)"
      by (simp add: runWorkflow_started)
    from run_steps_completed [OF fin assms(3)] None have c: "completed w st" by simp
    have logged: "ConsoleError ''Failed to commit changes:'' err
        \<in> set (console_out (finish_run e wo w st))"
      if "gitCommit e (commitMessage wo) = Inl err \<or>
          (gitCommit e (commitMessage wo) = Inr () \<and> gitPush e = Inl err)" for err
      using assms(2) that by (simp only: console_finish_run) (rule commit_failure_logged)
    from run None h c logged show ?thesis
      by (simp add: returned_finish_run effects_finish_run commit_events_autoCommit [OF assms(2)])
  next
    case (Some err)
    with fin assms(1)
    have "runWorkflow e ws wid input opts = Some (rethrow wid err (trace st) (console st))"
      by (simp add: runWorkflow_started)
    with Some h show ?thesis by (simp add: rethrow_def)
  qed
qed

theorem commit_hook_on_completion_witness:
  "(\<exists>out. runWorkflow (failing_commit (mk_env [''testing'' \<mapsto> stub ok_result] True))
             [''w'' \<mapsto> two_steps] ''w'' None (mk_options True False) = Some out \<and>
      returned out = Inr [(''a'', ok_result), (''b'', ok_result)] \<and>
      effects out = [EvDispatch (mk_task ''a'' ''testing''), EvDispatch (mk_task ''b'' ''testing''),
                     EvGitCommit ''CodeForge: Run workflow W''] \<and>
      ConsoleError ''Failed to commit changes:'' (Error ''git failed'') \<in> set (console_out out)) \<and>
   (\<exists>out. runWorkflow (mk_env [''testing'' \<mapsto> stub failed_result] True)
             [''w'' \<mapsto> two_steps] ''w'' None (mk_options True True) = Some out \<and>
      returned out = Inr [(''a'', failed_result), (''b'', failed_result)] \<and>
      effects out = [EvDispatch (mk_task ''a'' ''testing''),
                     EvAskApproval ''Step a failed. Do you want to continue the workflow?'',
                     EvDispatch (mk_task ''b'' ''testing''),
                     EvAskApproval ''Step b failed. Do you want to continue the workflow?'',
                     EvGitCommit ''CodeForge: Run workflow W'', EvGitPush])"
proof -
  let ?s = "mk_step ''a'' ''testing'' (Some (Static ''b''))"
  have first: "\<exists>out. runWorkflow (failing_commit (mk_env [''testing'' \<mapsto> stub ok_result] True))
             [''w'' \<mapsto> two_steps] ''w'' None (mk_options True False) = Some out \<and>
      returned out = Inr [(''a'', ok_result), (''b'', ok_result)] \<and>
      effects out = [EvDispatch (mk_task ''a'' ''testing''), EvDispatch (mk_task ''b'' ''testing''),
                     EvGitCommit ''CodeForge: Run workflow W''] \<and>
      ConsoleError ''Failed to commit changes:'' (Error ''git failed'') \<in> set (console_out out)"
  proof -
    let ?e = "failing_commit (mk_env [''testing'' \<mapsto> stub ok_result] True)"
    let ?o = "mk_options True False"
    let ?wo = "set_default_options ?e two_steps ?o"
    let ?st0 = "initial_state ?wo (ex_codebase ''/repo'') None ?s
        [Log (''Running workflow: '' @ wf_name two_steps)]"
    have g: "getWorkflow [''w'' \<mapsto> two_steps] ''w'' = Inr two_steps"
      by (simp add: getWorkflow_def)
    have wo: "codebaseDir ?wo = ''/repo''" "autoCommit ?wo" "\<not> requireApproval ?wo"
      "commitMessage ?wo = ''CodeForge: Run workflow W''"
      by (simp_all add: set_default_options_def mk_options_def or_default_def mk_env_def
          failing_commit_def ex_two_steps)
    have a: "analyzeCodebase ?e (codebaseDir ?wo) = Inr (ex_codebase ''/repo'')"
      by (simp add: wo) (simp add: mk_env_def ex_codebase_def failing_commit_def)
    have started: "run_started ?e [''w'' \<mapsto> two_steps] ''w'' None ?o two_steps ?wo ?st0"
      by (rule run_started_intro [OF g a]) (simp add: ex_two_steps)
    have src: "approve ?e = askForApproval"
      by (simp add: fun_eq_iff askForApproval_def failing_commit_def mk_env_def)
    have ags: "agents ?e = [''testing'' \<mapsto> stub ok_result]"
      by (simp add: failing_commit_def mk_env_def)
    have "\<exists>st. run_steps ?e two_steps None (requireApproval ?wo) ?st0 = Some (None, st) \<and>
            results st = [(''a'', ok_result), (''b'', ok_result)] \<and>
            trace st = [EvDispatch (mk_task ''a'' ''testing''), EvDispatch (mk_task ''b'' ''testing'')]"
      by (simp add: wo ags initial_state_def initial_context_def run_steps.simps loop_body_def
          advance_def truthy_def should_skip_def prepare_task_def spread_def executeTask_def
          task_type_agent_def getAgent_def resolve_next_def Let_def ex_defs failing_commit_def)
    then obtain st where
      st: "run_steps ?e two_steps None (requireApproval ?wo) ?st0 = Some (None, st)"
          "results st = [(''a'', ok_result), (''b'', ok_result)]"
          "trace st = [EvDispatch (mk_task ''a'' ''testing''), EvDispatch (mk_task ''b'' ''testing'')]"
      by blast
    have c: "gitCommit ?e m = Inl (Error ''git failed'')" for m
      by (simp add: failing_commit_def)
    from commit_hook_on_completion [OF started wo(2) src] st(1)
    have "\<exists>out. runWorkflow ?e [''w'' \<mapsto> two_steps] ''w'' None ?o = Some out \<and>
            (case None :: js_error option of
               None \<Rightarrow>
                 completed two_steps st \<and>
                 returned out = Inr (results st) \<and>
                 effects out = trace st @
                   EvGitCommit (commitMessage ?wo) #
                     (case gitCommit ?e (commitMessage ?wo) of
                        Inl err \<Rightarrow> [] | Inr u \<Rightarrow> [EvGitPush]) \<and>
                 hook_events (trace st) = [] \<and>
                 (\<forall>err. gitCommit ?e (commitMessage ?wo) = Inl err \<or>
                         (gitCommit ?e (commitMessage ?wo) = Inr () \<and> gitPush ?e = Inl err) \<longrightarrow>
                    ConsoleError ''Failed to commit changes:'' err \<in> set (console_out out))
             | Some err \<Rightarrow> returned out = Inl err \<and> hook_events (effects out) = [])"
      by blast
    then obtain out where
      out: "runWorkflow ?e [''w'' \<mapsto> two_steps] ''w'' None ?o = Some out"
        "returned out = Inr (results st)"
        "effects out = trace st @
                   EvGitCommit (commitMessage ?wo) #
                     (case gitCommit ?e (commitMessage ?wo) of
                        Inl err \<Rightarrow> [] | Inr u \<Rightarrow> [EvGitPush])"
        "\<forall>err. gitCommit ?e (commitMessage ?wo) = Inl err \<or>
                         (gitCommit ?e (commitMessage ?wo) = Inr () \<and> gitPush ?e = Inl err) \<longrightarrow>
                    ConsoleError ''Failed to commit changes:'' err \<in> set (console_out out)"
      by auto
    from out(4) c have "ConsoleError ''Failed to commit changes:'' (Error ''git failed'')
        \<in> set (console_out out)"
      by blast
    with out(1-3) show ?thesis
      by (simp add: st(2,3) c wo(4))
  qed
  have second: "\<exists>out. runWorkflow (mk_env [''testing'' \<mapsto> stub failed_result] True)
             [''w'' \<mapsto> two_steps] ''w'' None (mk_options True True) = Some out \<and>
      returned out = Inr [(''a'', failed_result), (''b'', failed_result)] \<and>
      effects out = [EvDispatch (mk_task ''a'' ''testing''),
                     EvAskApproval ''Step a failed. Do you want to continue the workflow?'',
                     EvDispatch (mk_task ''b'' ''testing''),
                     EvAskApproval ''Step b failed. Do you want to continue the workflow?'',
                     EvGitCommit ''CodeForge: Run workflow W'', EvGitPush]"
  proof -
    let ?e = "mk_env [''testing'' \<mapsto> stub failed_result] True"
    let ?o = "mk_options True True"
    let ?wo = "set_default_options ?e two_steps ?o"
    let ?st0 = "ex_start ?e two_steps ?o"
    have started: "run_started ?e [wf_id two_steps \<mapsto> two_steps] (wf_id two_steps) None ?o
        two_steps ?wo ?st0"
      by (rule ex_run_started) (simp add: ex_two_steps)
    have ac: "autoCommit ?wo" by (simp add: ex_wo)
    have rq: "requireApproval ?wo = True" by (simp add: ex_wo)
    have src: "approve ?e = askForApproval"
      by (simp add: fun_eq_iff askForApproval_def mk_env_def)
    have "\<exists>st. run_steps ?e two_steps None (requireApproval ?wo) ?st0 = Some (None, st) \<and>
            results st = [(''a'', failed_result), (''b'', failed_result)] \<and>
            trace st = [EvDispatch (mk_task ''a'' ''testing''),
                     EvAskApproval ''Step a failed. Do you want to continue the workflow?'',
                     EvDispatch (mk_task ''b'' ''testing''),
                     EvAskApproval ''Step b failed. Do you want to continue the workflow?'']"
      by (simp only: rq)
         (simp add: ex_start_def initial_state_def initial_context_def run_steps.simps
          loop_body_def advance_def truthy_def should_skip_def prepare_task_def spread_def
          executeTask_def task_type_agent_def getAgent_def resolve_next_def approval_message_def
          Let_def ex_defs)
    then obtain st where
      st: "run_steps ?e two_steps None (requireApproval ?wo) ?st0 = Some (None, st)"
          "results st = [(''a'', failed_result), (''b'', failed_result)]"
          "trace st = [EvDispatch (mk_task ''a'' ''testing''),
                     EvAskApproval ''Step a failed. Do you want to continue the workflow?'',
                     EvDispatch (mk_task ''b'' ''testing''),
                     EvAskApproval ''Step b failed. Do you want to continue the workflow?'']"
      by blast
    from commit_hook_on_completion [OF started ac src] st(1)
    have "\<exists>out. runWorkflow ?e [wf_id two_steps \<mapsto> two_steps] (wf_id two_steps) None ?o = Some out \<and>
            (case None :: js_error option of
               None \<Rightarrow>
                 completed two_steps st \<and>
                 returned out = Inr (results st) \<and>
                 effects out = trace st @
                   EvGitCommit (commitMessage ?wo) #
                     (case gitCommit ?e (commitMessage ?wo) of
                        Inl err \<Rightarrow> [] | Inr u \<Rightarrow> [EvGitPush]) \<and>
                 hook_events (trace st) = [] \<and>
                 (\<forall>err. gitCommit ?e (commitMessage ?wo) = Inl err \<or>
                         (gitCommit ?e (commitMessage ?wo) = Inr () \<and> gitPush ?e = Inl err) \<longrightarrow>
                    ConsoleError ''Failed to commit changes:'' err \<in> set (console_out out))
             | Some err \<Rightarrow> returned out = Inl err \<and> hook_events (effects out) = [])"
      by blast
    then obtain out where
      out: "runWorkflow ?e [wf_id two_steps \<mapsto> two_steps] (wf_id two_steps) None ?o = Some out"
        "returned out = Inr (results st)"
        "effects out = trace st @
                   EvGitCommit (commitMessage ?wo) #
                     (case gitCommit ?e (commitMessage ?wo) of
                        Inl err \<Rightarrow> [] | Inr u \<Rightarrow> [EvGitPush])"
      by auto
    have gc: "gitCommit ?e m = Inr ()" for m by (simp add: mk_env_def)
    from out show ?thesis
      by (simp add: st(2,3) ex_wo ex_two_steps gc)
  qed
  from first second show ?thesis by blast
qed

section \<open>A step whose condition is false\<close>

text \<open>
  C5, as the claim states it, fails: a step whose condition is false is skipped, but the
  workflow need not proceed to a next step. The selector \<^verbatim>\<open>step.next(context)\<close> is
  called on a context in which the skipped step has recorded no result; a selector that
  reads \<^verbatim>\<open>context.results[step.id].output\<close> throws there, nothing catches it inside the
  loop, and \<^verbatim>\<open>runWorkflow\<close> rethrows the error without having dispatched any task.
\<close>

theorem skipped_step_throwing_selector_counterexample:
  "map_option returned
     (runWorkflow (mk_env [''testing'' \<mapsto> stub ok_result] True) [''g'' \<mapsto> guarded_branch] ''g''
        None (mk_options False False)) =
     Some (Inl (TypeError ''Cannot read properties of undefined (reading output)'')) \<and>
   map_option effects
     (runWorkflow (mk_env [''testing'' \<mapsto> stub ok_result] True) [''g'' \<mapsto> guarded_branch] ''g''
        None (mk_options False False)) = Some []"
  by (simp add: run_defs advance_def ex_defs guarded_branch_def never_def reads_output_def)

text \<open>
  C5, amended: when the run comes to a step whose condition returns false on the current
  context, the pass dispatches nothing and records nothing (trace, result list and context
  are unchanged). If the step has no \<^verbatim>\<open>next\<close>, a static \<^verbatim>\<open>next\<close>, or a computed
  \<^verbatim>\<open>next\<close> that returns an id on the current context, the loop of \<^verbatim>\<open>runWorkflow\<close>
  continues from the state whose current step is that id (none when \<^verbatim>\<open>next\<close> is absent),
  and the outcome of \<^verbatim>\<open>runWorkflow\<close> is the outcome of the loop from there. If the computed
  \<^verbatim>\<open>next\<close> throws, \<^verbatim>\<open>runWorkflow\<close> logs the error and rethrows it, with the effects
  made so far.
\<close>

theorem skipped_step:
  assumes "run_at e ws wid input opts w wo st"
      and "at_step w st step"
      and "condition step = Some c" and "c (context st) = Inr False"
  shows "(\<forall>nxt. (next step = None \<and> nxt = None \<or>
                 (\<exists>i. next step = Some (Static i) \<and> nxt = Some i) \<or>
                 (\<exists>f i. next step = Some (Computed f) \<and> f (context st) = Inr i \<and> nxt = Some i)) \<longrightarrow>
            (\<exists>st'. continues_at e ws wid input opts w wo st st' \<and>
               currentStepId st' = nxt \<and>
               context st' = context st \<and> results st' = results st \<and> trace st' = trace st)) \<and>
         (\<forall>f err. next step = Some (Computed f) \<and> f (context st) = Inl err \<longrightarrow>
            (\<exists>out. runWorkflow e ws wid input opts = Some out \<and>
               returned out = Inl err \<and> effects out = trace st \<and>
               ConsoleError (''Error running workflow '' @ wid @ '':'') err \<in> set (console_out out)))"
proof (intro conjI allI impI)
  from assms(3,4) have skip: "should_skip step (context st) = Inr True"
    by (simp add: should_skip_def)
  from assms(2) have t: "truthy (currentStepId st)" by (simp add: at_step_def)
  have body: "loop_body e w input (requireApproval wo) st = advance step (skipped step st)"
    using assms(2) skip by (rule body_skip)
  have ctx: "context (skipped step st) = context st"
    by (simp add: skipped_def entered_def)
  {
    fix nxt
    assume "next step = None \<and> nxt = None \<or>
            (\<exists>i. next step = Some (Static i) \<and> nxt = Some i) \<or>
            (\<exists>f i. next step = Some (Computed f) \<and> f (context st) = Inr i \<and> nxt = Some i)"
    then have "resolve_next step (context (skipped step st)) = Inr nxt"
      by (auto simp add: resolve_next_def ctx)
    with body have "loop_body e w input (requireApproval wo) st =
        Next ((skipped step st)\<lparr>currentStepId := nxt\<rparr>)"
      by (simp add: advance_next)
    with assms(1) t
    have "continues_at e ws wid input opts w wo st ((skipped step st)\<lparr>currentStepId := nxt\<rparr>)"
      by (rule continues_atI)
    then show "\<exists>st'. continues_at e ws wid input opts w wo st st' \<and>
               currentStepId st' = nxt \<and>
               context st' = context st \<and> results st' = results st \<and> trace st' = trace st"
      by (intro exI [of _ "(skipped step st)\<lparr>currentStepId := nxt\<rparr>"])
         (simp add: skipped_def entered_def)
  }
  {
    fix f err
    assume "next step = Some (Computed f) \<and> f (context st) = Inl err"
    then have "resolve_next step (context (skipped step st)) = Inl err"
      by (simp add: resolve_next_def ctx)
    with body have "loop_body e w input (requireApproval wo) st = Throw err (skipped step st)"
      by (simp add: advance_throw)
    with assms(1) t have "runWorkflow e ws wid input opts =
        Some (rethrow wid err (trace (skipped step st)) (console (skipped step st)))"
      by (rule thrown_outcome)
    then show "\<exists>out. runWorkflow e ws wid input opts = Some out \<and>
               returned out = Inl err \<and> effects out = trace st \<and>
               ConsoleError (''Error running workflow '' @ wid @ '':'') err \<in> set (console_out out)"
      by (simp add: rethrow_def skipped_def entered_def)
  }
qed

theorem skipped_step_witness:
  "(\<exists>out. runWorkflow (mk_env [''testing'' \<mapsto> stub ok_result] True) [''g'' \<mapsto> guarded_steps] ''g''
       None (mk_options False False) = Some out \<and>
      returned out = Inr [(''b'', ok_result)] \<and>
      effects out = [EvDispatch (mk_task ''b'' ''testing'')]) \<and>
   (\<exists>out. runWorkflow (mk_env [''testing'' \<mapsto> stub ok_result] True) [''g'' \<mapsto> guarded_branch] ''g''
       None (mk_options False False) = Some out \<and>
      returned out = Inl (TypeError ''Cannot read properties of undefined (reading output)'') \<and>
      effects out = [])"
proof -
  let ?e = "mk_env [''testing'' \<mapsto> stub ok_result] True"
  let ?o = "mk_options False False"
  let ?b = "mk_step ''b'' ''testing'' None"
  have first: "\<exists>out. runWorkflow ?e [''g'' \<mapsto> guarded_steps] ''g'' None ?o = Some out \<and>
      returned out = Inr [(''b'', ok_result)] \<and>
      effects out = [EvDispatch (mk_task ''b'' ''testing'')]"
  proof -
    let ?w = guarded_steps
    let ?wo = "set_default_options ?e ?w ?o"
    let ?st = "ex_start ?e ?w ?o"
    let ?a = "(mk_step ''a'' ''testing'' (Some (Static ''b'')))\<lparr>condition := Some never\<rparr>"
    have w: "wf_id ?w = ''g''" "steps ?w = [?a, ?b]" by (simp_all add: guarded_steps_def)
    have ra: "run_at ?e [wf_id ?w \<mapsto> ?w] (wf_id ?w) None ?o ?w ?wo ?st"
      by (rule ex_run_at) (simp add: w)
    have at: "at_step ?w ?st ?a"
      by (rule ex_at_first) (simp_all add: w mk_step_def)
    have c: "condition ?a = Some never" by simp
    have n: "never (context ?st) = Inr False" by (simp add: never_def)
    have nx: "next ?a = None \<and> Some ''b'' = None \<or>
        (\<exists>i. next ?a = Some (Static i) \<and> Some ''b'' = Some i) \<or>
        (\<exists>f i. next ?a = Some (Computed f) \<and> f (context ?st) = Inr i \<and> Some ''b'' = Some i)"
      by (simp add: mk_step_def)
    from skipped_step [OF ra at c n] nx obtain st' where
      st': "continues_at ?e [wf_id ?w \<mapsto> ?w] (wf_id ?w) None ?o ?w ?wo ?st st'"
        "currentStepId st' = Some ''b''" "context st' = context ?st"
        "results st' = results ?st" "trace st' = trace ?st"
      by blast
    have atb: "at_step ?w st' ?b"
      by (simp add: at_step_def st'(2) truthy_def w mk_step_def)
    have "run_steps ?e ?w None (requireApproval ?wo) st' =
        Some (None, (recorded ?b None ok_result st')\<lparr>currentStepId := None\<rparr>)"
    proof (rule run_last_step [OF atb])
      show "should_skip ?b (context st') = Inr False" by (simp add: ex_step_facts)
      show "executeTask (agents ?e) (prepare_task ?b None) (context st') = Inr ok_result"
        by (simp add: ex_step_facts)
      show "success ok_result \<or> \<not> requireApproval ?wo" by (simp add: ok_result_def)
      show "next ?b = None" by (simp add: mk_step_def)
    qed
    with st'(1) have "runWorkflow ?e [wf_id ?w \<mapsto> ?w] (wf_id ?w) None ?o =
        Some (finish_run ?e ?wo ?w ((recorded ?b None ok_result st')\<lparr>currentStepId := None\<rparr>))"
      by (simp add: continues_at_def run_outcome_of_def)
    then show ?thesis
      by (simp add: w returned_finish_run effects_finish_run recorded_def dispatched_def
          entered_def st'(4,5) ex_start_fields ex_step_facts commit_events_def ex_wo)
  qed
  have second: "\<exists>out. runWorkflow ?e [''g'' \<mapsto> guarded_branch] ''g'' None ?o = Some out \<and>
      returned out = Inl (TypeError ''Cannot read properties of undefined (reading output)'') \<and>
      effects out = []"
  proof -
    let ?w = guarded_branch
    let ?wo = "set_default_options ?e ?w ?o"
    let ?st = "ex_start ?e ?w ?o"
    let ?a = "(mk_step ''a'' ''testing'' (Some (Computed (reads_output ''a''))))
        \<lparr>condition := Some never\<rparr>"
    have w: "wf_id ?w = ''g''" "steps ?w = [?a, ?b]" by (simp_all add: guarded_branch_def)
    have ra: "run_at ?e [wf_id ?w \<mapsto> ?w] (wf_id ?w) None ?o ?w ?wo ?st"
      by (rule ex_run_at) (simp add: w)
    have at: "at_step ?w ?st ?a"
      by (rule ex_at_first) (simp_all add: w mk_step_def)
    have c: "condition ?a = Some never" by simp
    have n: "never (context ?st) = Inr False" by (simp add: never_def)
    have th: "next ?a = Some (Computed (reads_output ''a'')) \<and>
        reads_output ''a'' (context ?st) =
          Inl (TypeError ''Cannot read properties of undefined (reading output)'')"
      by (simp add: mk_step_def reads_output_def ex_start_fields)
    from skipped_step [OF ra at c n] th show ?thesis
      by (simp add: w ex_start_fields) blast
  qed
  from first second show ?thesis by blast
qed

section \<open>Failed steps without the approval gate\<close>

text \<open>
  C6, as the claim states it, fails in its second half: without \<^verbatim>\<open>requireApproval\<close> a
  failed step never leads to the approval question, but the run does not unconditionally
  proceed to a next step. The result of the failed step is stored in the context before
  \<^verbatim>\<open>step.next(context)\<close> is called; a selector that reads the output of that result
  throws on the \<^verbatim>\<open>null\<close> output of a failure, and \<^verbatim>\<open>runWorkflow\<close> rethrows the error
  instead of continuing: the second step is never dispatched.
\<close>

theorem failed_step_throwing_selector_counterexample:
  "map_option returned
     (runWorkflow (mk_env [''testing'' \<mapsto> stub failed_result] True) [''o'' \<mapsto> branch_on_output] ''o''
        None (mk_options False False)) =
     Some (Inl (TypeError ''Cannot read properties of null (reading ok)'')) \<and>
   map_option effects
     (runWorkflow (mk_env [''testing'' \<mapsto> stub failed_result] True) [''o'' \<mapsto> branch_on_output] ''o''
        None (mk_options False False)) = Some [EvDispatch (mk_task ''a'' ''testing'')]"
  by (simp add: run_defs advance_def ex_defs branch_on_output_def reads_output_def)

text \<open>
  C6, amended: in a run without \<^verbatim>\<open>requireApproval\<close>, when the run comes to a step that
  is executed (no condition, or a condition that returns true) and whose result has
  \<^verbatim>\<open>success = false\<close>, the result is stored in the context and pushed on the result
  list with the dispatch as the only call. If the step has no \<^verbatim>\<open>next\<close>, a static
  \<^verbatim>\<open>next\<close>, or a computed \<^verbatim>\<open>next\<close> that returns an id on the updated context, the
  loop of \<^verbatim>\<open>runWorkflow\<close> continues from the state whose current step is that id, and the
  outcome of \<^verbatim>\<open>runWorkflow\<close> is the outcome of the loop from there. If the computed
  \<^verbatim>\<open>next\<close> throws, \<^verbatim>\<open>runWorkflow\<close> logs the error and rethrows it. In every case,
  whatever the run returns or throws, its trace holds no approval question at all.
\<close>

theorem no_approval_without_flag:
  assumes "run_at e ws wid input opts w wo st"
      and "\<not> requireApproval wo"
      and "at_step w st step"
      and "condition step = None \<or> (\<exists>c. condition step = Some c \<and> c (context st) = Inr True)"
      and "executeTask (agents e) (prepare_task step input) (context st) = Inr res"
      and "\<not> success res"
      and "ctx' = (context st)\<lparr>ctx_results := AList.update (step_id step) res (ctx_results (context st))\<rparr>"
  shows "(\<forall>nxt. (next step = None \<and> nxt = None \<or>
                 (\<exists>i. next step = Some (Static i) \<and> nxt = Some i) \<or>
                 (\<exists>f i. next step = Some (Computed f) \<and> f ctx' = Inr i \<and> nxt = Some i)) \<longrightarrow>
            (\<exists>st'. continues_at e ws wid input opts w wo st st' \<and>
               currentStepId st' = nxt \<and> context st' = ctx' \<and>
               trace st' = trace st @ [EvDispatch (prepare_task step input)] \<and>
               results st' = results st @ [(step_name step, res)])) \<and>
         (\<forall>f err. next step = Some (Computed f) \<and> f ctx' = Inl err \<longrightarrow>
            (\<exists>out. runWorkflow e ws wid input opts = Some out \<and>
               returned out = Inl err \<and>
               effects out = trace st @ [EvDispatch (prepare_task step input)] \<and>
               ConsoleError (''Error running workflow '' @ wid @ '':'') err \<in> set (console_out out))) \<and>
         (\<forall>out. runWorkflow e ws wid input opts = Some out \<longrightarrow>
            approval_events (effects out) = [])"
proof (intro conjI allI impI)
  from assms(4) have skip: "should_skip step (context st) = Inr False"
    by (auto simp add: should_skip_def)
  from assms(3) have t: "truthy (currentStepId st)" by (simp add: at_step_def)
  let ?rec = "recorded step input res st"
  have body: "loop_body e w input (requireApproval wo) st = advance step ?rec"
    using assms(3) skip assms(5) assms(2) by (rule body_continue [OF _ _ _ disjI2])
  have ctx: "context ?rec = ctx'"
    by (simp add: recorded_def assms(7))
  {
    fix nxt
    assume "next step = None \<and> nxt = None \<or>
            (\<exists>i. next step = Some (Static i) \<and> nxt = Some i) \<or>
            (\<exists>f i. next step = Some (Computed f) \<and> f ctx' = Inr i \<and> nxt = Some i)"
    then have "resolve_next step (context ?rec) = Inr nxt"
      by (auto simp add: resolve_next_def ctx)
    with body have "loop_body e w input (requireApproval wo) st = Next (?rec\<lparr>currentStepId := nxt\<rparr>)"
      by (simp add: advance_next)
    with assms(1) t
    have "continues_at e ws wid input opts w wo st (?rec\<lparr>currentStepId := nxt\<rparr>)"
      by (rule continues_atI)
    then show "\<exists>st'. continues_at e ws wid input opts w wo st st' \<and>
               currentStepId st' = nxt \<and> context st' = ctx' \<and>
               trace st' = trace st @ [EvDispatch (prepare_task step input)] \<and>
               results st' = results st @ [(step_name step, res)]"
      by (intro exI [of _ "?rec\<lparr>currentStepId := nxt\<rparr>"])
         (simp add: recorded_def dispatched_def entered_def assms(7))
  }
  {
    fix f err
    assume "next step = Some (Computed f) \<and> f ctx' = Inl err"
    then have "resolve_next step (context ?rec) = Inl err"
      by (simp add: resolve_next_def ctx)
    with body have "loop_body e w input (requireApproval wo) st = Throw err ?rec"
      by (simp add: advance_throw)
    with assms(1) t have "runWorkflow e ws wid input opts =
        Some (rethrow wid err (trace ?rec) (console ?rec))"
      by (rule thrown_outcome)
    then show "\<exists>out. runWorkflow e ws wid input opts = Some out \<and>
               returned out = Inl err \<and>
               effects out = trace st @ [EvDispatch (prepare_task step input)] \<and>
               ConsoleError (''Error running workflow '' @ wid @ '':'') err \<in> set (console_out out)"
      by (simp add: rethrow_def recorded_def dispatched_def entered_def)
  }
  {
    fix out
    assume out: "runWorkflow e ws wid input opts = Some out"
    from run_at_trace [OF assms(1)] assms(2) have "step_events False (trace st)" by simp
    then have a: "approval_events (trace st) = []" by (rule step_events_no_approval)
    from run_at_outcome [OF assms(1) out] assms(2) obtain evs where
      evs: "step_events False evs"
        "effects out = trace st @ evs @ commit_events e wo \<or> effects out = trace st @ evs"
      by auto
    from evs(1) have b: "approval_events evs = []" by (rule step_events_no_approval)
    from evs(2) a b show "approval_events (effects out) = []"
      by (auto simp add: approval_events_append approval_events_commit)
  }
qed

theorem no_approval_without_flag_witness:
  "(\<exists>out. runWorkflow (mk_env [''testing'' \<mapsto> stub failed_result] False) [''w'' \<mapsto> two_steps] ''w''
       None (mk_options False False) = Some out \<and>
      returned out = Inr [(''a'', failed_result), (''b'', failed_result)] \<and>
      effects out = [EvDispatch (mk_task ''a'' ''testing''), EvDispatch (mk_task ''b'' ''testing'')] \<and>
      approval_events (effects out) = []) \<and>
   (\<exists>out. runWorkflow (mk_env [''testing'' \<mapsto> stub failed_result] False) [''o'' \<mapsto> branch_on_output] ''o''
       None (mk_options False False) = Some out \<and>
      returned out = Inl (TypeError ''Cannot read properties of null (reading ok)'') \<and>
      effects out = [EvDispatch (mk_task ''a'' ''testing'')] \<and>
      approval_events (effects out) = [])"
proof -
  let ?e = "mk_env [''testing'' \<mapsto> stub failed_result] False"
  let ?o = "mk_options False False"
  let ?b = "mk_step ''b'' ''testing'' None"
  have first: "\<exists>out. runWorkflow ?e [''w'' \<mapsto> two_steps] ''w'' None ?o = Some out \<and>
      returned out = Inr [(''a'', failed_result), (''b'', failed_result)] \<and>
      effects out = [EvDispatch (mk_task ''a'' ''testing''), EvDispatch (mk_task ''b'' ''testing'')] \<and>
      approval_events (effects out) = []"
  proof -
    let ?w = two_steps
    let ?wo = "set_default_options ?e ?w ?o"
    let ?st = "ex_start ?e ?w ?o"
    let ?a = "mk_step ''a'' ''testing'' (Some (Static ''b''))"
    let ?ctx = "(context ?st)\<lparr>ctx_results :=
        AList.update (step_id ?a) failed_result (ctx_results (context ?st))\<rparr>"
    have w: "wf_id ?w = ''w''" "steps ?w = [?a, ?b]" by (simp_all add: two_steps_def)
    have ra: "run_at ?e [wf_id ?w \<mapsto> ?w] (wf_id ?w) None ?o ?w ?wo ?st"
      by (rule ex_run_at) (simp add: w)
    have r: "\<not> requireApproval ?wo" by (simp add: ex_wo)
    have at: "at_step ?w ?st ?a"
      by (rule ex_at_first) (simp_all add: w mk_step_def)
    have c: "condition ?a = None \<or> (\<exists>c. condition ?a = Some c \<and> c (context ?st) = Inr True)"
      by (simp add: mk_step_def)
    have ex: "executeTask (agents ?e) (prepare_task ?a None) (context ?st) = Inr failed_result"
      by (simp add: ex_step_facts)
    have f: "\<not> success failed_result" by (simp add: failed_result_def)
    have nx: "next ?a = None \<and> Some ''b'' = None \<or>
        (\<exists>i. next ?a = Some (Static i) \<and> Some ''b'' = Some i) \<or>
        (\<exists>f i. next ?a = Some (Computed f) \<and> f ?ctx = Inr i \<and> Some ''b'' = Some i)"
      by (simp add: mk_step_def)
    note inst = no_approval_without_flag [OF ra r at c ex f refl]
    from inst nx obtain st' where
      st': "continues_at ?e [wf_id ?w \<mapsto> ?w] (wf_id ?w) None ?o ?w ?wo ?st st'"
        "currentStepId st' = Some ''b''"
        "trace st' = trace ?st @ [EvDispatch (prepare_task ?a None)]"
        "results st' = results ?st @ [(step_name ?a, failed_result)]"
      by blast
    have atb: "at_step ?w st' ?b"
      by (simp add: at_step_def st'(2) truthy_def w mk_step_def)
    have "run_steps ?e ?w None (requireApproval ?wo) st' =
        Some (None, (recorded ?b None failed_result st')\<lparr>currentStepId := None\<rparr>)"
    proof (rule run_last_step [OF atb])
      show "should_skip ?b (context st') = Inr False" by (simp add: ex_step_facts)
      show "executeTask (agents ?e) (prepare_task ?b None) (context st') = Inr failed_result"
        by (simp add: ex_step_facts)
      show "success failed_result \<or> \<not> requireApproval ?wo" by (simp add: ex_wo)
      show "next ?b = None" by (simp add: mk_step_def)
    qed
    with st'(1) have run: "runWorkflow ?e [wf_id ?w \<mapsto> ?w] (wf_id ?w) None ?o =
        Some (finish_run ?e ?wo ?w ((recorded ?b None failed_result st')\<lparr>currentStepId := None\<rparr>))"
      by (simp add: continues_at_def run_outcome_of_def)
    from inst run have "approval_events (effects (finish_run ?e ?wo ?w
        ((recorded ?b None failed_result st')\<lparr>currentStepId := None\<rparr>))) = []"
      by blast
    with run show ?thesis
      by (simp add: w returned_finish_run effects_finish_run recorded_def dispatched_def
          entered_def st'(3,4) ex_start_fields ex_step_facts commit_events_def ex_wo)
  qed
  have second: "\<exists>out. runWorkflow ?e [''o'' \<mapsto> branch_on_output] ''o'' None ?o = Some out \<and>
      returned out = Inl (TypeError ''Cannot read properties of null (reading ok)'') \<and>
      effects out = [EvDispatch (mk_task ''a'' ''testing'')] \<and>
      approval_events (effects out) = []"
  proof -
    let ?w = branch_on_output
    let ?wo = "set_default_options ?e ?w ?o"
    let ?st = "ex_start ?e ?w ?o"
    let ?a = "mk_step ''a'' ''testing'' (Some (Computed (reads_output ''a'')))"
    let ?ctx = "(context ?st)\<lparr>ctx_results :=
        AList.update (step_id ?a) failed_result (ctx_results (context ?st))\<rparr>"
    have w: "wf_id ?w = ''o''" "steps ?w = [?a, ?b]" by (simp_all add: branch_on_output_def)
    have ra: "run_at ?e [wf_id ?w \<mapsto> ?w] (wf_id ?w) None ?o ?w ?wo ?st"
      by (rule ex_run_at) (simp add: w)
    have r: "\<not> requireApproval ?wo" by (simp add: ex_wo)
    have at: "at_step ?w ?st ?a"
      by (rule ex_at_first) (simp_all add: w mk_step_def)
    have c: "condition ?a = None \<or> (\<exists>c. condition ?a = Some c \<and> c (context ?st) = Inr True)"
      by (simp add: mk_step_def)
    have ex: "executeTask (agents ?e) (prepare_task ?a None) (context ?st) = Inr failed_result"
      by (simp add: ex_step_facts)
    have f: "\<not> success failed_result" by (simp add: failed_result_def)
    have th: "next ?a = Some (Computed (reads_output ''a'')) \<and>
        reads_output ''a'' ?ctx = Inl (TypeError ''Cannot read properties of null (reading ok)'')"
      by (simp add: mk_step_def reads_output_def ex_start_fields failed_result_def)
    note inst = no_approval_without_flag [OF ra r at c ex f refl]
    from inst th obtain out where
      out: "runWorkflow ?e [wf_id ?w \<mapsto> ?w] (wf_id ?w) None ?o = Some out"
        "returned out = Inl (TypeError ''Cannot read properties of null (reading ok)'')"
        "effects out = trace ?st @ [EvDispatch (prepare_task ?a None)]"
      by blast
    from inst out(1) have "approval_events (effects out) = []" by blast
    with out show ?thesis
      by (simp add: w ex_start_fields ex_step_facts)
  qed
  from first second show ?thesis by blast
qed

section \<open>A next id that names no step\<close>

text \<open>
  C7: when \<^verbatim>\<open>currentStepId\<close> matches no step of the workflow, the loop ends without
  an exception and \<^verbatim>\<open>runWorkflow\<close> returns exactly the results collected so far, in
  order; the only calls after that are those of the commit block. The results of every
  earlier state of the loop are a prefix of what is returned.
\<close>

theorem unknown_next_completes:
  assumes "run_at e ws wid input opts w wo st"
      and "find (\<lambda>s. Some (step_id s) = currentStepId st) (steps w) = None"
  shows "\<exists>out. runWorkflow e ws wid input opts = Some out \<and>
           returned out = Inr (results st) \<and>
           effects out = trace st @ commit_events e wo \<and>
           (\<forall>st1. reachable e w input (requireApproval wo) st1 st \<longrightarrow>
              (\<exists>rs. results st = results st1 @ rs))"
proof -
  from assms(2) have "run_steps e w input (requireApproval wo) st = Some (None, st)"
    by (rule run_steps_unknown)
  with assms(1) have "runWorkflow e ws wid input opts = Some (finish_run e wo w st)"
    by (rule run_at_finish)
  then show ?thesis
    by (auto simp add: returned_finish_run effects_finish_run dest: reachable_results)
qed

theorem unknown_next_completes_witness:
  "\<exists>out. runWorkflow (mk_env [''testing'' \<mapsto> stub ok_result] True) [''d'' \<mapsto> dangling_next] ''d''
            None (mk_options False False) = Some out \<and>
     returned out = Inr [(''a'', ok_result)] \<and>
     effects out = [EvDispatch (mk_task ''a'' ''testing'')]"
proof -
  let ?e = "mk_env [''testing'' \<mapsto> stub ok_result] True"
  let ?o = "mk_options False False"
  let ?s = "mk_step ''a'' ''testing'' (Some (Static ''zz''))"
  let ?st0 = "ex_start ?e dangling_next ?o"
  let ?st1 = "(recorded ?s None ok_result ?st0)\<lparr>currentStepId := Some ''zz''\<rparr>"
  have ra: "run_at ?e [wf_id dangling_next \<mapsto> dangling_next] (wf_id dangling_next) None ?o
      dangling_next (set_default_options ?e dangling_next ?o) ?st0"
    by (rule ex_run_at) (simp add: dangling_next_def)
  have at: "at_step dangling_next ?st0 ?s"
    by (rule ex_at_first) (simp_all add: dangling_next_def mk_step_def)
  have sk: "should_skip ?s (context ?st0) = Inr False"
    by (simp add: should_skip_def mk_step_def)
  have ex: "executeTask (agents ?e) (prepare_task ?s None) (context ?st0) = Inr ok_result"
    by (simp add: executeTask_def task_type_agent_def getAgent_def prepare_task_def mk_step_def
        mk_task_def mk_env_def stub_def)
  have "loop_body ?e dangling_next None
        (requireApproval (set_default_options ?e dangling_next ?o)) ?st0 =
      advance ?s (recorded ?s None ok_result ?st0)"
    by (rule body_continue [OF at sk ex]) (simp add: ok_result_def)
  then have body: "loop_body ?e dangling_next None
        (requireApproval (set_default_options ?e dangling_next ?o)) ?st0 = Next ?st1"
    by (simp add: advance_def resolve_next_def mk_step_def)
  from at have "truthy (currentStepId ?st0)" by (simp add: at_step_def)
  then have ra1: "run_at ?e [wf_id dangling_next \<mapsto> dangling_next] (wf_id dangling_next) None ?o
      dangling_next (set_default_options ?e dangling_next ?o) ?st1"
    using body by (rule run_at_next [OF ra])
  have nf: "find (\<lambda>s. Some (step_id s) = currentStepId ?st1) (steps dangling_next) = None"
    by (simp add: mk_step_def dangling_next_def)
  have t: "prepare_task ?s None = mk_task ''a'' ''testing''"
    by (simp add: prepare_task_def spread_def mk_step_def mk_task_def)
  have i: "wf_id dangling_next = ''d''" by (simp add: dangling_next_def)
  have n: "step_name ?s = ''a''" by (simp add: mk_step_def)
  from unknown_next_completes [OF ra1 nf] show ?thesis
    by (simp add: i t n recorded_def dispatched_def entered_def ex_start_fields commit_events_def ex_wo)
       blast
qed

section \<open>Workflows without branching\<close>

text \<open>
  C8, as the claim states it, fails: the loop test \<^verbatim>\<open>while (currentStepId)\<close> takes an
  empty step id for no step at all. A workflow of one step whose id is the empty
  string, with no condition and no \<^verbatim>\<open>next\<close>, run with a worker that always succeeds,
  dispatches nothing and returns an empty list, not a list of length one.
\<close>

theorem blank_step_id_counterexample:
  "length (steps blank_id_step) = 1 \<and> chained (steps blank_id_step) \<and>
   condition (hd (steps blank_id_step)) = None \<and>
   map_option returned
     (runWorkflow (mk_env [''testing'' \<mapsto> stub ok_result] True) [''e'' \<mapsto> blank_id_step] ''e''
        None None) = Some (Inr []) \<and>
   map_option effects
     (runWorkflow (mk_env [''testing'' \<mapsto> stub ok_result] True) [''e'' \<mapsto> blank_id_step] ''e''
        None None) = Some []"
  by (simp add: run_defs ex_defs blank_id_step_def)

text \<open>
  C8, amended: for every registered workflow with at least one step, whose step ids
  are non-empty and pairwise distinct, whose steps have no condition, each step's
  \<^verbatim>\<open>next\<close> being the static id of the step declared after it and the last step having
  none, and whose task types all name a registered worker that always returns
  \<^verbatim>\<open>success = true\<close>: when the codebase analysis succeeds, \<^verbatim>\<open>runWorkflow\<close>
  dispatches exactly the steps in declaration order (followed only by the calls of the
  commit block) and returns one successful result per step, in that order.
\<close>

theorem linear_workflow_runs:
  assumes "getWorkflow ws wid = Inr w"
      and "analyzeCodebase e (codebaseDir (set_default_options e w opts)) = Inr cb"
      and "steps w \<noteq> []"
      and "distinct (map step_id (steps w))"
      and "[] \<notin> step_id ` set (steps w)"
      and "chained (steps w)"
      and "\<forall>s \<in> set (steps w). condition s = None"
      and "served_by_stub e w"
  shows "\<exists>out rs. runWorkflow e ws wid input opts = Some out \<and>
           returned out = Inr rs \<and> length rs = length (steps w) \<and>
           map fst rs = map step_name (steps w) \<and>
           (\<forall>x \<in> set rs. success (snd x)) \<and>
           effects out =
             map (\<lambda>s. EvDispatch (prepare_task s input)) (steps w) @
             commit_events e (set_default_options e w opts)"
proof -
  let ?wo = "set_default_options e w opts"
  from assms(3) obtain s rest where s: "steps w = s # rest" by (cases "steps w") auto
  let ?st0 = "initial_state ?wo cb input s [Log (''Running workflow: '' @ wf_name w)]"
  have started: "run_started e ws wid input opts w ?wo ?st0"
    using assms(1,2) s by (rule run_started_intro)
  have "steps w = [] @ steps w" by simp
  moreover have "currentStepId ?st0 = Some (step_id (hd (steps w)))"
    by (simp add: initial_state_def s)
  ultimately obtain st' rs where
    fin: "run_steps e w input (requireApproval ?wo) ?st0 = Some (None, st')"
      "trace st' = trace ?st0 @ map (\<lambda>s. EvDispatch (prepare_task s input)) (steps w)"
      "results st' = results ?st0 @ rs" "map fst rs = map step_name (steps w)"
      "\<forall>x \<in> set rs. success (snd x)"
    using chain_run [OF _ assms(3,6,4,5,7,8), of "[]" ?st0 input "requireApproval ?wo"]
    by blast
  from started fin(1) have "runWorkflow e ws wid input opts = Some (finish_run e ?wo w st')"
    by (simp add: runWorkflow_started)
  moreover from fin(4) have "length rs = length (steps w)"
    by (metis length_map)
  ultimately show ?thesis
    using fin(2,3,4,5)
    by (intro exI [of _ "finish_run e ?wo w st'"] exI [of _ rs])
       (simp add: returned_finish_run effects_finish_run initial_state_def)
qed

theorem linear_workflow_runs_witness:
  "\<exists>out rs. runWorkflow (mk_env [''testing'' \<mapsto> stub ok_result] True) [''w'' \<mapsto> two_steps] ''w''
       None (mk_options False False) = Some out \<and>
     returned out = Inr rs \<and> length rs = 2 \<and> map fst rs = [''a'', ''b''] \<and>
     effects out = [EvDispatch (mk_task ''a'' ''testing''), EvDispatch (mk_task ''b'' ''testing'')]"
proof -
  let ?e = "mk_env [''testing'' \<mapsto> stub ok_result] True"
  let ?o = "mk_options False False"
  have g: "getWorkflow [''w'' \<mapsto> two_steps] ''w'' = Inr two_steps"
    by (simp add: getWorkflow_def)
  have d: "codebaseDir (set_default_options ?e two_steps ?o) = ''/repo''"
    by (simp add: set_default_options_def mk_options_def or_default_def mk_env_def)
  have a: "analyzeCodebase ?e (codebaseDir (set_default_options ?e two_steps ?o)) =
      Inr (ex_codebase ''/repo'')"
    by (simp add: d) (simp add: mk_env_def ex_codebase_def)
  have ne: "steps two_steps \<noteq> []" by (simp add: ex_two_steps)
  have di: "distinct (map step_id (steps two_steps))" by (simp add: ex_two_steps ex_step_facts)
  have nb: "[] \<notin> step_id ` set (steps two_steps)" by (simp add: ex_two_steps ex_step_facts)
  have ch: "chained (steps two_steps)" by (simp add: ex_two_steps mk_step_def)
  have co: "\<forall>s \<in> set (steps two_steps). condition s = None" by (simp add: ex_two_steps mk_step_def)
  have al: "always_succeeds (stub ok_result)"
    by (simp add: always_succeeds_def stub_def ok_result_def)
  have se: "served_by_stub ?e two_steps"
    by (simp add: served_by_stub_def ex_two_steps mk_step_def mk_task_def task_type_agent_def
        mk_env_def al)
  from linear_workflow_runs [OF g a ne di nb ch co se, of None] obtain out rs where
    "runWorkflow ?e [''w'' \<mapsto> two_steps] ''w'' None ?o = Some out"
    "returned out = Inr rs" "length rs = length (steps two_steps)"
    "map fst rs = map step_name (steps two_steps)"
    "effects out = map (\<lambda>s. EvDispatch (prepare_task s None)) (steps two_steps) @
       commit_events ?e (set_default_options ?e two_steps ?o)"
    by blast
  then show ?thesis
    by (intro exI [of _ out] exI [of _ rs])
       (simp add: ex_two_steps ex_step_facts commit_events_def ex_wo)
qed

section \<open>Termination\<close>

text \<open>
  C10: when the graph of next references of a workflow is acyclic, the step loop ends
  from every state, for every environment, and \<^verbatim>\<open>runWorkflow\<close> returns or throws.
  The engine keeps no set of visited steps and no bound: the workflow \<open>self_loop\<close>,
  whose only step has no condition and names itself as next, has a cycle through its
  first step, and with a worker that always succeeds its loop never ends, so
  \<^verbatim>\<open>runWorkflow\<close> never returns.
\<close>

theorem loop_termination:
  "(acyclic (next_edges w) \<longrightarrow>
      (\<exists>res. run_steps e w i r st = Some res) \<and>
      (getWorkflow ws wid = Inr w \<longrightarrow> (\<exists>out. runWorkflow e ws wid i opts = Some out))) \<and>
   (\<not> acyclic (next_edges self_loop) \<and>
    (step_id (hd (steps self_loop)), step_id (hd (steps self_loop))) \<in> next_edges self_loop \<and>
    (\<forall>s \<in> set (steps self_loop). condition s = None) \<and>
    (\<forall>st. currentStepId st = Some (step_id (hd (steps self_loop))) \<longrightarrow>
       run_steps (mk_env [''testing'' \<mapsto> stub ok_result] True) self_loop i r st = None) \<and>
    runWorkflow (mk_env [''testing'' \<mapsto> stub ok_result] True) [''l'' \<mapsto> self_loop] ''l'' i opts =
      None)"
proof (intro conjI impI allI ballI)
  assume "acyclic (next_edges w)"
  then show "\<exists>res. run_steps e w i r st = Some res" by (rule acyclic_run_steps)
next
  assume "acyclic (next_edges w)" and "getWorkflow ws wid = Inr w"
  then show "\<exists>out. runWorkflow e ws wid i opts = Some out" by (rule acyclic_runWorkflow)
next
  have "(''s1'', ''s1'') \<in> (next_edges self_loop)\<^sup>+" by (simp add: self_loop_edges)
  then show "\<not> acyclic (next_edges self_loop)" by (auto simp add: acyclic_def)
next
  show "(step_id (hd (steps self_loop)), step_id (hd (steps self_loop))) \<in> next_edges self_loop"
    by (simp add: self_loop_edges) (simp add: self_loop_def mk_step_def)
next
  fix s
  assume "s \<in> set (steps self_loop)"
  then show "condition s = None" by (simp add: self_loop_def mk_step_def)
next
  fix st :: run_state
  assume "currentStepId st = Some (step_id (hd (steps self_loop)))"
  then have "currentStepId st = Some ''s1''" by (simp add: self_loop_def mk_step_def)
  then show "run_steps (mk_env [''testing'' \<mapsto> stub ok_result] True) self_loop i r st = None"
    by (rule self_loop_diverges)
next
  show "runWorkflow (mk_env [''testing'' \<mapsto> stub ok_result] True) [''l'' \<mapsto> self_loop] ''l'' i opts =
      None"
    by (rule self_loop_runWorkflow)
qed

theorem loop_termination_witness:
  "(\<exists>res. run_steps (mk_env [''testing'' \<mapsto> stub ok_result] True) two_steps None False
       (ex_start (mk_env [''testing'' \<mapsto> stub ok_result] True) two_steps None) = Some res) \<and>
   (\<exists>out. runWorkflow (mk_env [''testing'' \<mapsto> stub ok_result] True) [''w'' \<mapsto> two_steps] ''w''
       None None = Some out) \<and>
   runWorkflow (mk_env [''testing'' \<mapsto> stub ok_result] True) [''l'' \<mapsto> self_loop] ''l''
       None None = None"
proof -
  have "next_edges two_steps \<subseteq> {(''a'', ''b'')}"
    by (auto simp add: next_edges_def next_targets_def two_steps_def mk_step_def)
  moreover have "acyclic ({} :: (string \<times> string) set)" by (rule wf_acyclic) simp
  then have "acyclic {(''a'', ''b'')}" by (simp add: acyclic_insert)
  ultimately have ac: "acyclic (next_edges two_steps)" by (rule acyclic_subset [rotated])
  have g: "getWorkflow [''w'' \<mapsto> two_steps] ''w'' = Inr two_steps"
    by (simp add: getWorkflow_def)
  from ac g
    loop_termination [of two_steps "mk_env [''testing'' \<mapsto> stub ok_result] True" None False
      "ex_start (mk_env [''testing'' \<mapsto> stub ok_result] True) two_steps None"
      "[''w'' \<mapsto> two_steps]" "''w''" None]
  show ?thesis by simp
qed

end
